theory Spec2Isabelle
  imports Complex_Main "HOL-Library.Multiset" "HOL-Library.Log_Nat"
begin

section \<open>Data model of \<open>scripts/classify_pdbs.py\<close>\<close>

text \<open>
  The script receives a Python dictionary from group names to lists of PDB identifiers
  and builds three dictionaries of the same shape. A dictionary is modelled as an
  association list in insertion order (the order \<open>data.items()\<close> iterates in); the keys
  of a Python dictionary are pairwise different, which theorems assume of the input as
  \<open>distinct (map fst data)\<close>.
\<close>

type_synonym pdb_dict = "(string \<times> string list) list"

text \<open>
  \<open>download_pdb\<close> lives in \<open>folding.utils.ops\<close> and is not part of the script. It is a
  parameter of every function below. The script only looks at three things: whether the
  call returns a truthy value, returns a falsy value, or raises an \<open>Exception\<close>.
\<close>

datatype download_result = Truthy | Falsy | Raises

type_synonym downloader = "string \<Rightarrow> string \<Rightarrow> download_result"

definition COMPLETE_IDs_FILE :: string where
  "COMPLETE_IDs_FILE = ''./pdb_ids_complete.pkl''"

definition INCOMPLETE_IDs_FILE :: string where
  "INCOMPLETE_IDs_FILE = ''./pdb_ids_incomplete.pkl''"

definition NOT_DOWNLOADABLE_IDs_FILE :: string where
  "NOT_DOWNLOADABLE_IDs_FILE = ''./pdb_ids_not_downloadable.pkl''"

definition COMPLETE_PDB_FILES :: string where
  "COMPLETE_PDB_FILES = ''./complete_pdbs/''"

text \<open>
  The file system is modelled by the sequence of \<open>save_pkl\<close> calls made so far, oldest
  first. Each call replaces the whole content of its file, so the content of a file is
  the data of the last call that named it.
\<close>

type_synonym disk = "(string \<times> pdb_dict) list"

definition save_pkl :: "string \<Rightarrow> pdb_dict \<Rightarrow> disk \<Rightarrow> disk" where
  "save_pkl file data' fs = fs @ [(file, data')]"

definition read_pkl :: "string \<Rightarrow> disk \<Rightarrow> pdb_dict option" where
  "read_pkl file fs = map_of (rev fs) file"

text \<open>
  \<open>d[k].append(pdb_id)\<close>. The first equation is the \<open>KeyError\<close> of a missing key; it is
  never reached, because the three dictionaries are created with the keys of \<open>data\<close>,
  keep them (lemma \<open>fold_add_task_keys\<close>), and \<open>k\<close> is always one of them (lemma
  \<open>futures_keys\<close>).
\<close>

fun dict_append :: "string \<Rightarrow> string \<Rightarrow> pdb_dict \<Rightarrow> pdb_dict" where
  "dict_append k pdb_id [] = []"
| "dict_append k pdb_id ((k', v) # d) =
     (if k' = k then (k', v @ [pdb_id]) # d else (k', v) # dict_append k pdb_id d)"

text \<open>\<open>{k: [] for k in data.keys()}\<close>\<close>

definition empty_lists :: "pdb_dict \<Rightarrow> pdb_dict" where
  "empty_lists data = map (\<lambda>k. (k, [])) (map fst data)"

text \<open>\<open>{k: v for k, v in d.items() if v}\<close>\<close>

definition drop_empty :: "pdb_dict \<Rightarrow> pdb_dict" where
  "drop_empty d = filter (\<lambda>(k, v). v \<noteq> []) d"

text \<open>\<open>sum([len(v) for v in d.values()])\<close>\<close>

definition total_len :: "pdb_dict \<Rightarrow> nat" where
  "total_len d = sum_list (map (\<lambda>v. length v) (map snd d))"

text \<open>The local variables of a batch run.\<close>

record state =
  complete :: pdb_dict
  incomplete :: pdb_dict
  not_downloadable :: pdb_dict
  count' :: nat
  written :: disk

definition init_state :: "pdb_dict \<Rightarrow> state" where
  "init_state data =
     \<lparr>complete = empty_lists data, incomplete = empty_lists data,
      not_downloadable = empty_lists data, count' = 0, written = []\<rparr>"

section \<open>Binary floating point\<close>

text \<open>
  The percentages of the summary are Python floats. A float is modelled by the rational
  number it denotes; \<open>to_double\<close> rounds a rational to the nearest number with a 53-bit
  significand, ties to even, as IEEE 754 binary64 arithmetic does for every operation.
  Overflow and subnormal numbers are left out: the values here lie between \<open>1 / n\<close> and
  \<open>100\<close>.
\<close>

definition pow2 :: "int \<Rightarrow> rat" where
  "pow2 e = (if 0 \<le> e then 2 ^ nat e else 1 / 2 ^ nat (- e))"

definition round_half_even :: "rat \<Rightarrow> int" where
  "round_half_even x =
     (let f = \<lfloor>x\<rfloor>; r = x - of_int f
      in if r < 1 / 2 then f else if 1 / 2 < r then f + 1
         else if even f then f else f + 1)"

text \<open>The exponent \<open>e\<close> with \<open>2 ^ e \<le> x < 2 ^ (e + 1)\<close>, for positive \<open>x\<close>.\<close>

definition binade :: "rat \<Rightarrow> int" where
  "binade x =
     (let (p, q) = quotient_of x; d = bitlen p - bitlen q
      in if pow2 d \<le> x then d else d - 1)"

definition to_double :: "rat \<Rightarrow> rat" where
  "to_double x =
     (if x = 0 then 0
      else let u = pow2 (binade \<bar>x\<bar> - 52) in of_int (round_half_even (x / u)) * u)"

text \<open>\<open>a / b\<close> on two integers (true division) and \<open>x * y\<close> on two floats.\<close>

definition int_truediv :: "nat \<Rightarrow> nat \<Rightarrow> rat" where
  "int_truediv a b = to_double (of_nat a / of_nat b)"

definition float_mul :: "rat \<Rightarrow> rat \<Rightarrow> rat" where
  "float_mul x y = to_double (x * y)"

section \<open>The summary reporter\<close>

datatype error = ZeroDivisionError

text \<open>
  What \<open>verbose_analysis\<close> prints: the total, the three counts and the three
  percentages (the values handed to the format strings; the two-decimal formatting is
  not modelled).
\<close>

record report =
  number_of_pdb_ids :: nat
  total_complete :: nat
  total_incomplete :: nat
  total_not_downloadable :: nat
  complete_percentage :: rat
  incomplete_percentage :: rat
  not_downloadable_percentage :: rat

definition verbose_analysis ::
  "pdb_dict \<Rightarrow> pdb_dict \<Rightarrow> pdb_dict \<Rightarrow> nat \<Rightarrow> error + report" where
  "verbose_analysis c i n number =
     (let tc = total_len c; ti = total_len i; tn = total_len n
      in if number = 0 then Inl ZeroDivisionError
         else Inr \<lparr>number_of_pdb_ids = number,
                   total_complete = tc, total_incomplete = ti, total_not_downloadable = tn,
                   complete_percentage = float_mul (int_truediv tc number) 100,
                   incomplete_percentage = float_mul (int_truediv ti number) 100,
                   not_downloadable_percentage = float_mul (int_truediv tn number) 100\<rparr>)"

section \<open>Sequential classification\<close>

text \<open>The three \<open>save_pkl\<close> calls of a checkpoint, in the order of the source.\<close>

definition save_all :: "pdb_dict \<Rightarrow> pdb_dict \<Rightarrow> pdb_dict \<Rightarrow> disk \<Rightarrow> disk" where
  "save_all c i n fs =
     save_pkl NOT_DOWNLOADABLE_IDs_FILE n
       (save_pkl INCOMPLETE_IDs_FILE i (save_pkl COMPLETE_IDs_FILE c fs))"

text \<open>\<open>if count % 10 == 0: ...\<close>, the last statement of the loop body.\<close>

definition save_progress :: "state \<Rightarrow> state" where
  "save_progress s =
     (if count' s mod 10 = 0
      then s\<lparr>written := save_all (complete s) (incomplete s) (not_downloadable s) (written s)\<rparr>
      else s)"

text \<open>
  The body of the inner loop for one \<open>pdb_id\<close> of group \<open>k\<close>. The \<open>except\<close> branch ends
  with \<open>continue\<close>, so it does not reach \<open>save_progress\<close>.
\<close>

definition loop_body :: "downloader \<Rightarrow> string \<Rightarrow> string \<Rightarrow> state \<Rightarrow> state" where
  "loop_body download_pdb k pdb_id s0 =
     (let s = s0\<lparr>count' := count' s0 + 1\<rparr>
      in case download_pdb COMPLETE_PDB_FILES (pdb_id @ ''.pdb'') of
           Truthy \<Rightarrow> save_progress (s\<lparr>complete := dict_append k pdb_id (complete s)\<rparr>)
         | Falsy \<Rightarrow> save_progress (s\<lparr>incomplete := dict_append k pdb_id (incomplete s)\<rparr>)
         | Raises \<Rightarrow> s\<lparr>not_downloadable := dict_append k pdb_id (not_downloadable s)\<rparr>)"

text \<open>The two nested \<open>for\<close> loops.\<close>

definition classify_loop :: "downloader \<Rightarrow> pdb_dict \<Rightarrow> state \<Rightarrow> state" where
  "classify_loop download_pdb data s =
     fold (\<lambda>(k, v) s'. fold (loop_body download_pdb k) v s') data s"

text \<open>
  What a run leaves behind: the \<open>save_pkl\<close> calls it made, the summary it printed (if
  any), and how it ended: with an exception, or by returning a value. \<open>None\<close> is
  Python's \<open>None\<close>; the other values of the type are a tuple of three dictionaries and
  a number.
\<close>

type_synonym py_value = "(pdb_dict \<times> pdb_dict \<times> pdb_dict \<times> nat) option"

record outcome =
  saved :: disk
  summary :: "report option"
  result :: "error + py_value"

text \<open>
  The part after the classification, which both functions share line for line: prune,
  write the final checkpoint, report if \<open>verbose\<close>, return \<open>None\<close>.
\<close>

definition finish :: "nat \<Rightarrow> bool \<Rightarrow> state \<Rightarrow> outcome" where
  "finish number verbose s =
     (let c = drop_empty (complete s);
          i = drop_empty (incomplete s);
          n = drop_empty (not_downloadable s);
          fs = save_all c i n (written s)
      in if verbose
         then (case verbose_analysis c i n number of
                 Inl e \<Rightarrow> \<lparr>saved = fs, summary = None, result = Inl e\<rparr>
               | Inr r \<Rightarrow> \<lparr>saved = fs, summary = Some r, result = Inr None\<rparr>)
         else \<lparr>saved = fs, summary = None, result = Inr None\<rparr>)"

definition classify_pdb_batch :: "downloader \<Rightarrow> pdb_dict \<Rightarrow> bool \<Rightarrow> outcome" where
  "classify_pdb_batch download_pdb data verbose =
     (let number = total_len data
      in finish number verbose (classify_loop download_pdb data (init_state data)))"

section \<open>Concurrent classification\<close>

text \<open>
  The task a worker thread runs for one identifier. It touches the three dictionaries
  only; the concurrent function keeps no counter and writes no file before the end.
\<close>

definition process_pdb :: "downloader \<Rightarrow> string \<Rightarrow> string \<Rightarrow> state \<Rightarrow> state" where
  "process_pdb download_pdb pdb_id k s =
     (case download_pdb COMPLETE_PDB_FILES (pdb_id @ ''.pdb'') of
        Truthy \<Rightarrow> s\<lparr>complete := dict_append k pdb_id (complete s)\<rparr>
      | Falsy \<Rightarrow> s\<lparr>incomplete := dict_append k pdb_id (incomplete s)\<rparr>
      | Raises \<Rightarrow> s\<lparr>not_downloadable := dict_append k pdb_id (not_downloadable s)\<rparr>)"

text \<open>
  The tasks submitted to the executor, \<open>(pdb_id, k)\<close> for every \<open>k, v\<close> of
  \<open>data.items()\<close> and every \<open>pdb_id\<close> of \<open>v\<close>, in submission order.
\<close>

definition futures :: "pdb_dict \<Rightarrow> (string \<times> string) list" where
  "futures data = concat (map (\<lambda>(k, v). map (\<lambda>pdb_id. (pdb_id, k)) v) data)"

text \<open>
  The thread pool. The only effect of a task on shared state is one \<open>list.append\<close>,
  which the interpreter executes as one indivisible step, so a run of the pool is
  determined by the order in which the pending tasks perform their append. That order
  is not fixed by the program: it is given by a schedule, a list of numbers, where each
  number selects (modulo the number of pending tasks) the task that goes next. Every
  schedule is a possible run, and every order of the tasks is the run of some schedule
  (lemmas \<open>run_pool_order\<close> and \<open>every_order_is_a_run\<close>).
\<close>

definition next_task :: "nat list \<Rightarrow> nat \<Rightarrow> nat" where
  "next_task sched n = (case sched of [] \<Rightarrow> 0 | i # _ \<Rightarrow> i mod n)"

definition remove_nth :: "nat \<Rightarrow> 'a list \<Rightarrow> 'a list" where
  "remove_nth j xs = take j xs @ drop (Suc j) xs"

function run_pool ::
  "downloader \<Rightarrow> nat list \<Rightarrow> (string \<times> string) list \<Rightarrow> state \<Rightarrow> state" where
  "run_pool download_pdb sched [] s = s"
| "run_pool download_pdb sched (t # ts) s =
     run_pool download_pdb (tl sched)
       (remove_nth (next_task sched (length (t # ts))) (t # ts))
       (process_pdb download_pdb
          (fst ((t # ts) ! next_task sched (length (t # ts))))
          (snd ((t # ts) ! next_task sched (length (t # ts)))) s)"
  by pat_completeness auto
termination
  by (relation "measure (\<lambda>(d, sched, ts, s). length ts)")
     (auto simp: remove_nth_def next_task_def split: list.splits)

definition parallel_classify_pdb_batch ::
  "downloader \<Rightarrow> nat list \<Rightarrow> pdb_dict \<Rightarrow> bool \<Rightarrow> outcome" where
  "parallel_classify_pdb_batch download_pdb sched data verbose =
     (let number = total_len data
      in finish number verbose (run_pool download_pdb sched (futures data) (init_state data)))"

section \<open>Notions used to state the properties\<close>

text \<open>The classification of one identifier: what the call made for it does.\<close>

definition outcome_of :: "downloader \<Rightarrow> string \<Rightarrow> download_result" where
  "outcome_of download_pdb pdb_id = download_pdb COMPLETE_PDB_FILES (pdb_id @ ''.pdb'')"

text \<open>The identifiers of a list with a given classification, in the order of the list.\<close>

definition classified :: "downloader \<Rightarrow> download_result \<Rightarrow> string list \<Rightarrow> string list" where
  "classified download_pdb r v = filter (\<lambda>pdb_id. outcome_of download_pdb pdb_id = r) v"

text \<open>The entry of a dictionary for a key: \<open>d[k]\<close> where \<open>k\<close> is a key, nothing otherwise.\<close>

definition entry :: "pdb_dict \<Rightarrow> string \<Rightarrow> string list option" where
  "entry d k = map_of d k"

text \<open>The identifiers that a list of tasks holds for group \<open>k\<close>, in the order of the list.\<close>

definition ids_of :: "string \<Rightarrow> (string \<times> string) list \<Rightarrow> string list" where
  "ids_of k ts = map fst (filter (\<lambda>t. snd t = k) ts)"

text \<open>
  The effect of one task \<open>(pdb_id, k)\<close> on the dictionary of classification \<open>r\<close>:
  an append when the identifier is classified \<open>r\<close>, nothing otherwise.
\<close>

definition add_task ::
  "downloader \<Rightarrow> download_result \<Rightarrow> string \<times> string \<Rightarrow> pdb_dict \<Rightarrow> pdb_dict" where
  "add_task dl r t d = (if outcome_of dl (fst t) = r then dict_append (snd t) (fst t) d else d)"

text \<open>One iteration of the sequential loops and one task of the pool, on a task pair.\<close>

definition seq_step :: "downloader \<Rightarrow> string \<times> string \<Rightarrow> state \<Rightarrow> state" where
  "seq_step dl t s = loop_body dl (snd t) (fst t) s"

definition par_step :: "downloader \<Rightarrow> string \<times> string \<Rightarrow> state \<Rightarrow> state" where
  "par_step dl t s = process_pdb dl (fst t) (snd t) s"

text \<open>The three writes of a checkpoint taken in state \<open>s\<close>.\<close>

definition snapshot :: "state \<Rightarrow> disk" where
  "snapshot s = [(COMPLETE_IDs_FILE, complete s), (INCOMPLETE_IDs_FILE, incomplete s),
                 (NOT_DOWNLOADABLE_IDs_FILE, not_downloadable s)]"

text \<open>
  The retrieval capability of the specification's scenario: \<open>x1\<close> is complete, \<open>x2\<close>
  is incomplete, every other identifier cannot be downloaded.
\<close>

definition example_download :: downloader where
  "example_download dir file =
     (if file = ''x1.pdb'' then Truthy else if file = ''x2.pdb'' then Falsy else Raises)"

definition example_data :: pdb_dict where
  "example_data = [(''A'', [''x1'', ''x2'']), (''B'', [''y1''])]"

text \<open>
  The three dictionaries of a state partition the input: they have the keys of \<open>data\<close>,
  and for every group the three sequences together hold exactly the identifiers of the
  group's input list, each as often as the input has it, and no identifier is in two of
  them.
\<close>

definition partitioned :: "pdb_dict \<Rightarrow> state \<Rightarrow> bool" where
  "partitioned data s \<longleftrightarrow>
     map fst (complete s) = map fst data \<and>
     map fst (incomplete s) = map fst data \<and>
     map fst (not_downloadable s) = map fst data \<and>
     (\<forall>(k, v) \<in> set data.
        case (entry (complete s) k, entry (incomplete s) k, entry (not_downloadable s) k) of
          (Some c, Some i, Some n) \<Rightarrow>
             mset c + mset i + mset n = mset v \<and>
             set c \<inter> set i = {} \<and> set c \<inter> set n = {} \<and> set i \<inter> set n = {}
        | _ \<Rightarrow> False)"

text \<open>File \<open>file\<close> holds a dictionary that lists \<open>pdb_id\<close> under group \<open>k\<close>.\<close>

definition file_lists :: "disk \<Rightarrow> string \<Rightarrow> string \<Rightarrow> string \<Rightarrow> bool" where
  "file_lists fs file k pdb_id \<longleftrightarrow>
     (case read_pkl file fs of
        None \<Rightarrow> False
      | Some d \<Rightarrow> (case entry d k of None \<Rightarrow> False | Some ys \<Rightarrow> pdb_id \<in> set ys))"

text \<open>
  File \<open>file\<close> holds the dictionary \<open>d\<close> pruned: no group of the file has an empty
  sequence, and no group that is empty in \<open>d\<close> is a key of the file.
\<close>

definition pruned_file :: "pdb_dict \<Rightarrow> disk \<Rightarrow> string \<Rightarrow> bool" where
  "pruned_file d fs file \<longleftrightarrow>
     (case read_pkl file fs of
        None \<Rightarrow> False
      | Some d' \<Rightarrow> [] \<notin> snd ` set d' \<and> (\<forall>(k, v) \<in> set d. v = [] \<longrightarrow> entry d' k = None))"

text \<open>File \<open>file\<close> holds a dictionary without the key \<open>k\<close>.\<close>

definition group_absent :: "disk \<Rightarrow> string \<Rightarrow> string \<Rightarrow> bool" where
  "group_absent fs file k \<longleftrightarrow>
     (case read_pkl file fs of None \<Rightarrow> False | Some d \<Rightarrow> entry d k = None)"

text \<open>An input with a group that has no identifier.\<close>

definition pruning_data :: pdb_dict where
  "pruning_data = [(''A'', [''x1'', ''x2'']), (''B'', [''y1'']), (''C'', [])]"

text \<open>An input whose only group has no identifier.\<close>

definition empty_group_data :: pdb_dict where
  "empty_group_data = [(''A'', [])]"

text \<open>The identifiers of the input in the order the sequential loops process them.\<close>

definition all_ids :: "pdb_dict \<Rightarrow> string list" where
  "all_ids data = concat (map snd data)"

text \<open>The state of the sequential loops after the first \<open>j\<close> identifiers.\<close>

definition prefix_state :: "downloader \<Rightarrow> pdb_dict \<Rightarrow> nat \<Rightarrow> state" where
  "prefix_state dl data j = fold (seq_step dl) (take j (futures data)) (init_state data)"

text \<open>
  The number of checkpoints written by the loops, that is, before the final one: every
  checkpoint writes the file of complete identifiers once.
\<close>

definition checkpoints_before_final :: "downloader \<Rightarrow> pdb_dict \<Rightarrow> nat" where
  "checkpoints_before_final dl data =
     length (filter (\<lambda>w. fst w = COMPLETE_IDs_FILE) (written (classify_loop dl data (init_state data))))"

text \<open>One group of ten identifiers; a downloader that fails on the tenth, and one that never fails.\<close>

definition ten_ids :: pdb_dict where
  "ten_ids = [(''A'', [''p1'', ''p2'', ''p3'', ''p4'', ''p5'', ''p6'', ''p7'', ''p8'', ''p9'', ''p10''])]"

definition tenth_fails :: downloader where
  "tenth_fails dir file = (if file = ''p10.pdb'' then Raises else Truthy)"

definition all_complete :: downloader where
  "all_complete dir file = Truthy"

text \<open>
  Twenty-five identifiers in two groups, and a downloader that fails on the third and
  on the last of them and finds the tenth incomplete.
\<close>

definition data25 :: pdb_dict where
  "data25 = [(''A'', [''a1'', ''a2'', ''a3'', ''a4'', ''a5'', ''a6'', ''a7'', ''a8'', ''a9'', ''a10'',
                      ''a11'', ''a12'']),
             (''B'', [''b1'', ''b2'', ''b3'', ''b4'', ''b5'', ''b6'', ''b7'', ''b8'', ''b9'', ''b10'',
                      ''b11'', ''b12'', ''b13''])]"

definition some_fail :: downloader where
  "some_fail dir file = (if file = ''a3.pdb'' \<or> file = ''b13.pdb'' then Raises
                         else if file = ''a10.pdb'' then Falsy else Truthy)"

text \<open>The percentage of a count in exact arithmetic, without rounding.\<close>

definition exact_percentage :: "nat \<Rightarrow> nat \<Rightarrow> rat" where
  "exact_percentage a number = of_nat a / of_nat number * 100"

text \<open>The sum of the three percentages of a summary.\<close>

definition percentage_sum :: "report \<Rightarrow> rat" where
  "percentage_sum rep =
     complete_percentage rep + incomplete_percentage rep + not_downloadable_percentage rep"

text \<open>Six identifiers of which only the first can be downloaded.\<close>

definition six_ids :: pdb_dict where
  "six_ids = [(''A'', [''q1'', ''q2'', ''q3'', ''q4'', ''q5'', ''q6''])]"

definition first_only :: downloader where
  "first_only dir file = (if file = ''q1.pdb'' then Truthy else Raises)"

section \<open>Lists as objects\<close>

text \<open>
  \<open>list.append\<close> changes a list object in place, and two names may denote the same
  object. To say that the input is not changed, the lists are placed in a heap: a heap
  is the sequence of the list objects allocated so far, and a reference is an index
  into it. Allocation appends to the heap, so no object is ever moved. The script never
  assigns to a key of a dictionary after the dictionary is built, so a dictionary stays
  a value, now from keys to references.
\<close>

type_synonym ref = nat

type_synonym heap = "string list list"

type_synonym ref_dict = "(string \<times> ref) list"

text \<open>The dictionary of lists that a dictionary of references denotes in a heap.\<close>

definition deref :: "heap \<Rightarrow> ref_dict \<Rightarrow> pdb_dict" where
  "deref h d = map (\<lambda>(k, r). (k, h ! r)) d"

text \<open>\<open>{k: [] for k in data.keys()}\<close>: a new list object for every key.\<close>

fun new_lists :: "string list \<Rightarrow> heap \<Rightarrow> ref_dict \<times> heap" where
  "new_lists [] h = ([], h)"
| "new_lists (k # ks) h =
     (let (d, h') = new_lists ks (h @ [[]]) in ((k, length h) # d, h'))"

text \<open>\<open>d[k].append(pdb_id)\<close>: the object that \<open>d[k]\<close> refers to is replaced in the heap.\<close>

definition list_append :: "ref_dict \<Rightarrow> string \<Rightarrow> string \<Rightarrow> heap \<Rightarrow> heap" where
  "list_append d k pdb_id h =
     (case map_of d k of None \<Rightarrow> h | Some r \<Rightarrow> h[r := h ! r @ [pdb_id]])"

text \<open>
  \<open>{k: v for k, v in d.items() if v}\<close>: a new dictionary that refers to the same list
  objects.
\<close>

definition h_drop_empty :: "heap \<Rightarrow> ref_dict \<Rightarrow> ref_dict" where
  "h_drop_empty h d = filter (\<lambda>(k, r). h ! r \<noteq> []) d"

text \<open>
  The local variables of a batch run, with the heap. What is pickled is the content the
  references denote at the time of the call.
\<close>

record hstate =
  heap :: heap
  complete_at :: ref_dict
  incomplete_at :: ref_dict
  not_downloadable_at :: ref_dict
  h_count :: nat
  h_written :: disk

definition h_init :: "ref_dict \<Rightarrow> heap \<Rightarrow> hstate" where
  "h_init data h =
     (let (c, h1) = new_lists (map fst data) h;
          (i, h2) = new_lists (map fst data) h1;
          (n, h3) = new_lists (map fst data) h2
      in \<lparr>heap = h3, complete_at = c, incomplete_at = i, not_downloadable_at = n,
          h_count = 0, h_written = []\<rparr>)"

definition h_save_progress :: "hstate \<Rightarrow> hstate" where
  "h_save_progress s =
     (if h_count s mod 10 = 0
      then s\<lparr>h_written := save_all (deref (heap s) (complete_at s))
                              (deref (heap s) (incomplete_at s))
                              (deref (heap s) (not_downloadable_at s)) (h_written s)\<rparr>
      else s)"

definition h_loop_body :: "downloader \<Rightarrow> string \<Rightarrow> string \<Rightarrow> hstate \<Rightarrow> hstate" where
  "h_loop_body download_pdb k pdb_id s0 =
     (let s = s0\<lparr>h_count := h_count s0 + 1\<rparr>
      in case download_pdb COMPLETE_PDB_FILES (pdb_id @ ''.pdb'') of
           Truthy \<Rightarrow> h_save_progress (s\<lparr>heap := list_append (complete_at s) k pdb_id (heap s)\<rparr>)
         | Falsy \<Rightarrow> h_save_progress (s\<lparr>heap := list_append (incomplete_at s) k pdb_id (heap s)\<rparr>)
         | Raises \<Rightarrow> s\<lparr>heap := list_append (not_downloadable_at s) k pdb_id (heap s)\<rparr>)"

text \<open>
  \<open>for pdb_id in v\<close> visits the list object by index and reads it again at every
  step, while the body runs in between. The loop would not end if the body appended to
  the list it visits, so it is a partial function: \<open>None\<close> is a loop that does not end.
\<close>

partial_function (option) h_inner_loop ::
  "downloader \<Rightarrow> string \<Rightarrow> ref \<Rightarrow> nat \<Rightarrow> hstate \<Rightarrow> hstate option" where
  "h_inner_loop download_pdb k r i s =
     (if i < length (heap s ! r)
      then h_inner_loop download_pdb k r (Suc i) (h_loop_body download_pdb k (heap s ! r ! i) s)
      else Some s)"

fun h_outer_loop :: "downloader \<Rightarrow> ref_dict \<Rightarrow> hstate \<Rightarrow> hstate option" where
  "h_outer_loop download_pdb [] s = Some s"
| "h_outer_loop download_pdb ((k, r) # items) s =
     (case h_inner_loop download_pdb k r 0 s of
        None \<Rightarrow> None
      | Some s' \<Rightarrow> h_outer_loop download_pdb items s')"

definition h_finish :: "nat \<Rightarrow> bool \<Rightarrow> hstate \<Rightarrow> outcome" where
  "h_finish number verbose s =
     (let c = deref (heap s) (h_drop_empty (heap s) (complete_at s));
          i = deref (heap s) (h_drop_empty (heap s) (incomplete_at s));
          n = deref (heap s) (h_drop_empty (heap s) (not_downloadable_at s));
          fs = save_all c i n (h_written s)
      in if verbose
         then (case verbose_analysis c i n number of
                 Inl e \<Rightarrow> \<lparr>saved = fs, summary = None, result = Inl e\<rparr>
               | Inr r \<Rightarrow> \<lparr>saved = fs, summary = Some r, result = Inr None\<rparr>)
         else \<lparr>saved = fs, summary = None, result = Inr None\<rparr>)"

definition h_classify_pdb_batch ::
  "downloader \<Rightarrow> ref_dict \<Rightarrow> bool \<Rightarrow> heap \<Rightarrow> (outcome \<times> heap) option" where
  "h_classify_pdb_batch download_pdb data verbose h =
     (let number = total_len (deref h data)
      in case h_outer_loop download_pdb data (h_init data h) of
           None \<Rightarrow> None
         | Some s \<Rightarrow> Some (h_finish number verbose s, heap s))"

text \<open>
  The pool on the heap. The tasks are built from the content of the input lists when
  the run starts; each task writes through \<open>h_process_pdb\<close> only.
\<close>

definition h_process_pdb :: "downloader \<Rightarrow> string \<Rightarrow> string \<Rightarrow> hstate \<Rightarrow> hstate" where
  "h_process_pdb download_pdb pdb_id k s =
     (case download_pdb COMPLETE_PDB_FILES (pdb_id @ ''.pdb'') of
        Truthy \<Rightarrow> s\<lparr>heap := list_append (complete_at s) k pdb_id (heap s)\<rparr>
      | Falsy \<Rightarrow> s\<lparr>heap := list_append (incomplete_at s) k pdb_id (heap s)\<rparr>
      | Raises \<Rightarrow> s\<lparr>heap := list_append (not_downloadable_at s) k pdb_id (heap s)\<rparr>)"

function h_run_pool ::
  "downloader \<Rightarrow> nat list \<Rightarrow> (string \<times> string) list \<Rightarrow> hstate \<Rightarrow> hstate" where
  "h_run_pool download_pdb sched [] s = s"
| "h_run_pool download_pdb sched (t # ts) s =
     h_run_pool download_pdb (tl sched)
       (remove_nth (next_task sched (length (t # ts))) (t # ts))
       (h_process_pdb download_pdb
          (fst ((t # ts) ! next_task sched (length (t # ts))))
          (snd ((t # ts) ! next_task sched (length (t # ts)))) s)"
  by pat_completeness auto
termination
  by (relation "measure (\<lambda>(d, sched, ts, s). length ts)")
     (auto simp: remove_nth_def next_task_def split: list.splits)

definition h_parallel_classify_pdb_batch ::
  "downloader \<Rightarrow> nat list \<Rightarrow> ref_dict \<Rightarrow> bool \<Rightarrow> heap \<Rightarrow> outcome \<times> heap" where
  "h_parallel_classify_pdb_batch download_pdb sched data verbose h =
     (let number = total_len (deref h data);
          s0 = h_init data h;
          s = h_run_pool download_pdb sched (futures (deref (heap s0) data)) s0
      in (h_finish number verbose s, heap s))"

text \<open>The state without the heap: every reference replaced by the list it denotes.\<close>

definition view :: "hstate \<Rightarrow> state" where
  "view s = \<lparr>complete = deref (heap s) (complete_at s),
             incomplete = deref (heap s) (incomplete_at s),
             not_downloadable = deref (heap s) (not_downloadable_at s),
             count' = h_count s, written = h_written s\<rparr>"

text \<open>
  The references of the three dictionaries are pairwise different, denote objects of the
  heap, and are not below \<open>b\<close>; the keys of each dictionary are pairwise different.
\<close>

definition fresh_refs :: "nat \<Rightarrow> hstate \<Rightarrow> bool" where
  "fresh_refs b s \<longleftrightarrow>
     distinct (map snd (complete_at s @ incomplete_at s @ not_downloadable_at s)) \<and>
     (\<forall>r \<in> snd ` set (complete_at s @ incomplete_at s @ not_downloadable_at s).
        b \<le> r \<and> r < length (heap s)) \<and>
     distinct (map fst (complete_at s)) \<and> distinct (map fst (incomplete_at s)) \<and>
     distinct (map fst (not_downloadable_at s))"

text \<open>Every object of heap \<open>h\<close> is an object of \<open>h'\<close>, at the same place and with the same content.\<close>

definition untouched :: "heap \<Rightarrow> heap \<Rightarrow> bool" where
  "untouched h h' \<longleftrightarrow> take (length h) h' = h"

text \<open>The invariant of a run that started on heap \<open>h\<close>.\<close>

definition frame :: "heap \<Rightarrow> hstate \<Rightarrow> bool" where
  "frame h s \<longleftrightarrow> fresh_refs (length h) s \<and> untouched h (heap s)"

text \<open>The scenario input as objects: two lists in the heap and a dictionary that refers to them.\<close>

definition example_heap :: heap where
  "example_heap = [[''x1'', ''x2''], [''y1'']]"

definition example_refs :: ref_dict where
  "example_refs = [(''A'', 0), (''B'', 1)]"

section \<open>Dictionaries and task lists\<close>

lemma dict_append_keys: "map fst (dict_append k x d) = map fst d"
  by (induction d) auto

lemma dict_append_distinct:
  "distinct (map fst d) \<Longrightarrow>
   dict_append k x d = map (\<lambda>(k', v). (k', if k' = k then v @ [x] else v)) d"
proof (induction d)
  case Nil
  then show ?case by simp
next
  case (Cons p d)
  obtain k' v where p: "p = (k', v)" by (cases p)
  have rest: "k' = k \<Longrightarrow> map (\<lambda>(k', v). (k', if k' = k then v @ [x] else v)) d = d"
    using Cons.prems p by (intro map_idI) (auto simp: rev_image_eqI)
  show ?case using Cons p rest by auto
qed

lemma add_task_keys: "map fst (add_task dl r t d) = map fst d"
  by (simp add: add_task_def dict_append_keys)

lemma fold_add_task_keys: "map fst (fold (add_task dl r) ts d) = map fst d"
  by (induction ts arbitrary: d) (simp_all add: add_task_keys)

lemma fold_add_task:
  "distinct (map fst d) \<Longrightarrow>
   fold (add_task dl r) ts d = map (\<lambda>(k, v). (k, v @ classified dl r (ids_of k ts))) d"
proof (induction ts arbitrary: d)
  case Nil
  then show ?case by (simp add: ids_of_def classified_def)
next
  case (Cons t ts)
  have dist: "distinct (map fst (add_task dl r t d))"
    using Cons.prems by (simp add: add_task_keys)
  have "fold (add_task dl r) (t # ts) d = fold (add_task dl r) ts (add_task dl r t d)"
    by simp
  also have "\<dots> = map (\<lambda>(k, v). (k, v @ classified dl r (ids_of k ts))) (add_task dl r t d)"
    by (rule Cons.IH [OF dist])
  also have "\<dots> = map (\<lambda>(k, v). (k, v @ classified dl r (ids_of k (t # ts)))) d"
    using Cons.prems
    by (auto simp: add_task_def dict_append_distinct ids_of_def classified_def)
  finally show ?case .
qed

lemma loop_body_complete:
  "complete (loop_body dl k x s) = add_task dl Truthy (x, k) (complete s)"
  by (simp add: loop_body_def add_task_def outcome_of_def save_progress_def Let_def
           split: download_result.splits)

lemma loop_body_incomplete:
  "incomplete (loop_body dl k x s) = add_task dl Falsy (x, k) (incomplete s)"
  by (simp add: loop_body_def add_task_def outcome_of_def save_progress_def Let_def
           split: download_result.splits)

lemma loop_body_not_downloadable:
  "not_downloadable (loop_body dl k x s) = add_task dl Raises (x, k) (not_downloadable s)"
  by (simp add: loop_body_def add_task_def outcome_of_def save_progress_def Let_def
           split: download_result.splits)

lemma loop_body_count: "count' (loop_body dl k x s) = Suc (count' s)"
  by (simp add: loop_body_def save_progress_def Let_def split: download_result.splits)

lemma process_pdb_complete:
  "complete (process_pdb dl x k s) = add_task dl Truthy (x, k) (complete s)"
  by (simp add: process_pdb_def add_task_def outcome_of_def split: download_result.splits)

lemma process_pdb_incomplete:
  "incomplete (process_pdb dl x k s) = add_task dl Falsy (x, k) (incomplete s)"
  by (simp add: process_pdb_def add_task_def outcome_of_def split: download_result.splits)

lemma process_pdb_not_downloadable:
  "not_downloadable (process_pdb dl x k s) = add_task dl Raises (x, k) (not_downloadable s)"
  by (simp add: process_pdb_def add_task_def outcome_of_def split: download_result.splits)

lemma process_pdb_written: "written (process_pdb dl x k s) = written s"
  by (simp add: process_pdb_def split: download_result.splits)

lemma inner_loop_fold:
  "fold (loop_body dl k) v s = fold (seq_step dl) (map (\<lambda>pdb_id. (pdb_id, k)) v) s"
  by (induction v arbitrary: s) (simp_all add: seq_step_def)

lemma classify_loop_fold:
  "classify_loop dl data s = fold (seq_step dl) (futures data) s"
  by (induction data arbitrary: s)
     (auto simp: classify_loop_def futures_def inner_loop_fold)

lemma seq_fold_complete:
  "complete (fold (seq_step dl) ts s) = fold (add_task dl Truthy) ts (complete s)"
  by (induction ts arbitrary: s) (simp_all add: seq_step_def loop_body_complete)

lemma seq_fold_incomplete:
  "incomplete (fold (seq_step dl) ts s) = fold (add_task dl Falsy) ts (incomplete s)"
  by (induction ts arbitrary: s) (simp_all add: seq_step_def loop_body_incomplete)

lemma seq_fold_not_downloadable:
  "not_downloadable (fold (seq_step dl) ts s) = fold (add_task dl Raises) ts (not_downloadable s)"
  by (induction ts arbitrary: s) (simp_all add: seq_step_def loop_body_not_downloadable)

lemma seq_fold_count: "count' (fold (seq_step dl) ts s) = count' s + length ts"
  by (induction ts arbitrary: s) (simp_all add: seq_step_def loop_body_count)

lemma par_fold_complete:
  "complete (fold (par_step dl) ts s) = fold (add_task dl Truthy) ts (complete s)"
  by (induction ts arbitrary: s) (simp_all add: par_step_def process_pdb_complete)

lemma par_fold_incomplete:
  "incomplete (fold (par_step dl) ts s) = fold (add_task dl Falsy) ts (incomplete s)"
  by (induction ts arbitrary: s) (simp_all add: par_step_def process_pdb_incomplete)

lemma par_fold_not_downloadable:
  "not_downloadable (fold (par_step dl) ts s) = fold (add_task dl Raises) ts (not_downloadable s)"
  by (induction ts arbitrary: s) (simp_all add: par_step_def process_pdb_not_downloadable)

lemma par_fold_written: "written (fold (par_step dl) ts s) = written s"
  by (induction ts arbitrary: s) (simp_all add: par_step_def process_pdb_written)

lemma futures_keys: "(pdb_id, k) \<in> set (futures data) \<Longrightarrow> k \<in> fst ` set data"
  by (induction data) (auto simp: futures_def)

lemma ids_of_append: "ids_of k (xs @ ys) = ids_of k xs @ ids_of k ys"
  by (simp add: ids_of_def)

lemma ids_of_group: "ids_of k (map (\<lambda>pdb_id. (pdb_id, k')) v) = (if k' = k then v else [])"
  by (induction v) (auto simp: ids_of_def)

lemma ids_of_Nil: "ids_of k [] = []"
  by (simp add: ids_of_def)

lemma futures_Cons: "futures ((k, v) # data) = map (\<lambda>pdb_id. (pdb_id, k)) v @ futures data"
  by (simp add: futures_def)

lemma ids_of_futures_absent: "k \<notin> fst ` set data \<Longrightarrow> ids_of k (futures data) = []"
proof (induction data)
  case Nil
  show ?case by (simp add: futures_def ids_of_Nil)
next
  case (Cons p data)
  then show ?case
    by (cases p) (auto simp: futures_Cons ids_of_append ids_of_group)
qed

lemma ids_of_futures:
  "distinct (map fst data) \<Longrightarrow> (k, v) \<in> set data \<Longrightarrow> ids_of k (futures data) = v"
proof (induction data)
  case Nil
  then show ?case by simp
next
  case (Cons p data)
  obtain k' v' where p: "p = (k', v')" by (cases p)
  have split: "ids_of k (futures (p # data)) = (if k' = k then v' else []) @ ids_of k (futures data)"
    using p by (simp add: futures_Cons ids_of_append ids_of_group)
  show ?case
  proof (cases "k' = k")
    case True
    then have "k \<notin> fst ` set data" using Cons.prems(1) p by auto
    moreover from this have "v' = v" using Cons.prems(2) p True by (auto simp: rev_image_eqI)
    ultimately show ?thesis using split True by (simp add: ids_of_futures_absent)
  next
    case False
    then show ?thesis using Cons p split by auto
  qed
qed

text \<open>A run of the pool processes the submitted tasks, each once, in some order.\<close>

lemma run_pool_order:
  "\<exists>order. mset order = mset ts \<and> run_pool dl sched ts s = fold (par_step dl) order s"
proof (induction dl sched ts s rule: run_pool.induct)
  case (1 dl sched s)
  show ?case by simp
next
  case (2 dl sched t ts s)
  let ?p = "t # ts"
  let ?j = "next_task sched (length ?p)"
  have j: "?j < length ?p"
    by (simp add: next_task_def split: list.splits)
  from 2 obtain order where
    o: "mset order = mset (remove_nth ?j ?p)"
       "run_pool dl (tl sched) (remove_nth ?j ?p) (process_pdb dl (fst (?p ! ?j)) (snd (?p ! ?j)) s)
        = fold (par_step dl) order (process_pdb dl (fst (?p ! ?j)) (snd (?p ! ?j)) s)"
    by blast
  have "mset ?p = mset (take ?j ?p @ (?p ! ?j) # drop (Suc ?j) ?p)"
    using j by (simp only: id_take_nth_drop [OF j, symmetric])
  then have m: "mset ((?p ! ?j) # order) = mset ?p"
    using o(1) by (simp add: remove_nth_def)
  have "run_pool dl sched ?p s = fold (par_step dl) ((?p ! ?j) # order) s"
    using o(2) by (simp add: par_step_def)
  with m show ?case by blast
qed

text \<open>Conversely, every order of the submitted tasks is the run of some schedule.\<close>

lemma run_pool_Cons:
  assumes "j < length ts"
  shows "run_pool dl (j # sched) ts s = run_pool dl sched (remove_nth j ts) (par_step dl (ts ! j) s)"
proof (cases ts)
  case Nil
  then show ?thesis using assms by simp
next
  case (Cons t ts')
  then show ?thesis
    using assms by (simp add: next_task_def par_step_def)
qed

lemma mset_remove_nth: "j < length ts \<Longrightarrow> mset (remove_nth j ts) = mset ts - {#ts ! j#}"
proof -
  assume j: "j < length ts"
  have "mset ts = mset (take j ts @ ts ! j # drop (Suc j) ts)"
    by (simp only: id_take_nth_drop [OF j, symmetric])
  then show ?thesis by (simp add: remove_nth_def)
qed

lemma every_order_is_a_run:
  "mset order = mset ts \<Longrightarrow> \<exists>sched. run_pool dl sched ts s = fold (par_step dl) order s"
proof (induction order arbitrary: ts s)
  case Nil
  then show ?case by simp
next
  case (Cons t order)
  then have "t \<in> set ts" by (metis list.set_intros(1) mset_eq_setD)
  then obtain j where j: "j < length ts" "ts ! j = t" by (auto simp: in_set_conv_nth)
  have "mset order = mset (remove_nth j ts)"
    using Cons.prems j by (simp add: mset_remove_nth flip: Cons.prems)
  then obtain sched where
    "run_pool dl sched (remove_nth j ts) (par_step dl t s) = fold (par_step dl) order (par_step dl t s)"
    using Cons.IH by blast
  then have "run_pool dl (j # sched) ts s = fold (par_step dl) (t # order) s"
    using j by (simp add: run_pool_Cons)
  then show ?case by blast
qed

lemma save_all_snapshot:
  "save_all (complete s) (incomplete s) (not_downloadable s) fs = fs @ snapshot s"
  by (simp add: save_all_def save_pkl_def snapshot_def)

lemma snapshot_written [simp]: "snapshot (s\<lparr>written := w\<rparr>) = snapshot s"
  by (simp add: snapshot_def)

lemma loop_body_written:
  "written (loop_body dl k x s) =
     written s @ (if Suc (count' s) mod 10 = 0 \<and> outcome_of dl x \<noteq> Raises
                  then snapshot (loop_body dl k x s) else [])"
  by (simp add: loop_body_def save_progress_def outcome_of_def Let_def save_all_def
                save_pkl_def snapshot_def
           split: download_result.splits)

lemma seq_fold_written:
  "written (fold (seq_step dl) ts s) =
     written s @ concat (map (\<lambda>j. if (count' s + Suc j) mod 10 = 0 \<and> outcome_of dl (fst (ts ! j)) \<noteq> Raises
                                   then snapshot (fold (seq_step dl) (take (Suc j) ts) s) else [])
                          [0..<length ts])"
proof (induction ts rule: rev_induct)
  case Nil
  show ?case by simp
next
  case (snoc t ts)
  let ?g = "\<lambda>us j. if (count' s + Suc j) mod 10 = 0 \<and> outcome_of dl (fst (us ! j)) \<noteq> Raises
                     then snapshot (fold (seq_step dl) (take (Suc j) us) s) else []"
  let ?s' = "fold (seq_step dl) ts s"
  have old: "map (?g (ts @ [t])) [0..<length ts] = map (?g ts) [0..<length ts]"
    by (rule map_cong) (auto simp: nth_append)
  have last: "written (seq_step dl t ?s') = written ?s' @ ?g (ts @ [t]) (length ts)"
    by (simp add: seq_step_def loop_body_written [of dl _ _ ?s'] seq_fold_count)
  have "written (fold (seq_step dl) (ts @ [t]) s) = written (seq_step dl t ?s')"
    by simp
  also have "\<dots> = written s @ concat (map (?g ts) [0..<length ts]) @ ?g (ts @ [t]) (length ts)"
    using last snoc.IH by simp
  also have "\<dots> = written s @ concat (map (?g (ts @ [t])) [0..<length ts]) @ ?g (ts @ [t]) (length ts)"
    by (simp only: old)
  also have "\<dots> = written s @ concat (map (?g (ts @ [t])) ([0..<length ts] @ [length ts]))"
    by (simp only: map_append concat_append list.map concat.simps append_Nil2)
  also have "[0..<length ts] @ [length ts] = [0..<length (ts @ [t])]"
    by simp
  finally show ?case .
qed

lemma concat_two_of_25:
  assumes "\<And>j. j < 25 \<Longrightarrow> j \<noteq> 9 \<Longrightarrow> j \<noteq> 19 \<Longrightarrow> g j = []"
  shows "concat (map g [0..<25]) = g 9 @ g (19::nat)"
proof -
  have "[0..<25] = [0..<9] @ [9] @ [10..<19] @ [19] @ [20..<(25::nat)]"
    by (simp add: upt_rec)
  moreover have "concat (map g [0..<9]) = []" "concat (map g [10..<19]) = []" "concat (map g [20..<25]) = []"
    using assms by auto
  ultimately show ?thesis by simp
qed

lemma length_futures: "length (futures data) = total_len data"
  by (induction data) (auto simp: futures_def total_len_def)

lemma fold_add_task_init:
  assumes "distinct (map fst data)"
  shows "fold (add_task dl r) ts (empty_lists data)
         = map (\<lambda>(k, v). (k, classified dl r (ids_of k ts))) data"
proof -
  have "distinct (map fst (empty_lists data))"
    using assms by (simp add: empty_lists_def comp_def)
  then have "fold (add_task dl r) ts (empty_lists data)
             = map (\<lambda>(k, v). (k, v @ classified dl r (ids_of k ts))) (empty_lists data)"
    by (rule fold_add_task)
  also have "\<dots> = map (\<lambda>(k, v). (k, classified dl r (ids_of k ts))) data"
    by (simp add: empty_lists_def comp_def case_prod_beta)
  finally show ?thesis .
qed

lemma seq_dicts:
  assumes "distinct (map fst data)"
  shows "complete (fold (seq_step dl) ts (init_state data))
           = map (\<lambda>(k, v). (k, classified dl Truthy (ids_of k ts))) data"
    and "incomplete (fold (seq_step dl) ts (init_state data))
           = map (\<lambda>(k, v). (k, classified dl Falsy (ids_of k ts))) data"
    and "not_downloadable (fold (seq_step dl) ts (init_state data))
           = map (\<lambda>(k, v). (k, classified dl Raises (ids_of k ts))) data"
  using assms
  by (simp_all add: seq_fold_complete seq_fold_incomplete seq_fold_not_downloadable
                    init_state_def fold_add_task_init)

lemma par_dicts:
  assumes "distinct (map fst data)"
  shows "complete (fold (par_step dl) ts (init_state data))
           = map (\<lambda>(k, v). (k, classified dl Truthy (ids_of k ts))) data"
    and "incomplete (fold (par_step dl) ts (init_state data))
           = map (\<lambda>(k, v). (k, classified dl Falsy (ids_of k ts))) data"
    and "not_downloadable (fold (par_step dl) ts (init_state data))
           = map (\<lambda>(k, v). (k, classified dl Raises (ids_of k ts))) data"
  using assms
  by (simp_all add: par_fold_complete par_fold_incomplete par_fold_not_downloadable
                    init_state_def fold_add_task_init)

lemma map_ids_of_futures:
  assumes "distinct (map fst data)"
  shows "map (\<lambda>(k, v). (k, f (ids_of k (futures data)))) data = map (\<lambda>(k, v). (k, f v)) data"
  by (rule map_cong) (auto simp: ids_of_futures [OF assms])

lemma classify_loop_dicts:
  assumes "distinct (map fst data)"
  shows "complete (classify_loop dl data (init_state data))
           = map (\<lambda>(k, v). (k, classified dl Truthy v)) data"
    and "incomplete (classify_loop dl data (init_state data))
           = map (\<lambda>(k, v). (k, classified dl Falsy v)) data"
    and "not_downloadable (classify_loop dl data (init_state data))
           = map (\<lambda>(k, v). (k, classified dl Raises v)) data"
  by (simp_all add: classify_loop_fold seq_dicts [OF assms] map_ids_of_futures [OF assms])

lemma mset_ids_of: "mset order = mset ts \<Longrightarrow> mset (ids_of k order) = mset (ids_of k ts)"
proof -
  assume "mset order = mset ts"
  then have "filter_mset (\<lambda>t. snd t = k) (mset order) = filter_mset (\<lambda>t. snd t = k) (mset ts)"
    by simp
  then have "mset (filter (\<lambda>t. snd t = k) order) = mset (filter (\<lambda>t. snd t = k) ts)"
    by (simp only: mset_filter)
  then have "image_mset fst (mset (filter (\<lambda>t. snd t = k) order))
             = image_mset fst (mset (filter (\<lambda>t. snd t = k) ts))"
    by simp
  then show ?thesis
    by (simp only: ids_of_def mset_map)
qed

lemma files_distinct:
  "COMPLETE_IDs_FILE \<noteq> INCOMPLETE_IDs_FILE" "COMPLETE_IDs_FILE \<noteq> NOT_DOWNLOADABLE_IDs_FILE"
  "INCOMPLETE_IDs_FILE \<noteq> NOT_DOWNLOADABLE_IDs_FILE" "INCOMPLETE_IDs_FILE \<noteq> COMPLETE_IDs_FILE"
  "NOT_DOWNLOADABLE_IDs_FILE \<noteq> COMPLETE_IDs_FILE" "NOT_DOWNLOADABLE_IDs_FILE \<noteq> INCOMPLETE_IDs_FILE"
  by (simp_all add: COMPLETE_IDs_FILE_def INCOMPLETE_IDs_FILE_def NOT_DOWNLOADABLE_IDs_FILE_def)

lemma read_save_all:
  "read_pkl COMPLETE_IDs_FILE (save_all c i n fs) = Some c"
  "read_pkl INCOMPLETE_IDs_FILE (save_all c i n fs) = Some i"
  "read_pkl NOT_DOWNLOADABLE_IDs_FILE (save_all c i n fs) = Some n"
  by (simp_all add: read_pkl_def save_all_def save_pkl_def files_distinct)

lemma saved_finish:
  "saved (finish number verbose s)
   = save_all (drop_empty (complete s)) (drop_empty (incomplete s))
       (drop_empty (not_downloadable s)) (written s)"
  by (simp add: finish_def Let_def split: sum.splits)

lemma result_finish:
  "result (finish number verbose s)
   = (if verbose \<and> number = 0 then Inl ZeroDivisionError else Inr None)"
  by (simp add: finish_def verbose_analysis_def Let_def split: sum.splits)

lemma summary_finish:
  "summary (finish number verbose s)
   = (if verbose
      then (case verbose_analysis (drop_empty (complete s)) (drop_empty (incomplete s))
                  (drop_empty (not_downloadable s)) number of
              Inl e \<Rightarrow> None | Inr r \<Rightarrow> Some r)
      else None)"
  by (simp add: finish_def Let_def split: sum.splits)

lemma mset_classified:
  "mset (classified dl Truthy xs) + mset (classified dl Falsy xs) + mset (classified dl Raises xs)
   = mset xs"
proof (induction xs)
  case Nil
  show ?case by (simp add: classified_def)
next
  case (Cons x xs)
  then show ?case
    by (cases "outcome_of dl x") (simp_all add: classified_def)
qed

lemma classified_disjoint: "r \<noteq> r' \<Longrightarrow> set (classified dl r xs) \<inter> set (classified dl r' xs) = {}"
  by (auto simp: classified_def)

lemma set_classified: "set (classified dl r xs) = {x \<in> set xs. outcome_of dl x = r}"
  by (auto simp: classified_def)

lemma entry_map:
  "k \<in> fst ` set data \<Longrightarrow> entry (map (\<lambda>(k, v). (k, f k)) data) k = Some (f k)"
  by (induction data) (auto simp: entry_def)

lemma entry_map_absent:
  "k \<notin> fst ` set data \<Longrightarrow> entry (map (\<lambda>(k, v). (k, f k)) data) k = None"
  by (induction data) (auto simp: entry_def)

lemma keys_map: "map fst (map (\<lambda>(k, v). (k, f k)) data) = map fst data"
  by (induction data) auto

lemma arranged_partitioned:
  assumes arr: "\<And>k v. (k, v) \<in> set data \<Longrightarrow> mset (arr k) = mset v"
    and c: "complete s = map (\<lambda>(k, v). (k, classified dl Truthy (arr k))) data"
    and i: "incomplete s = map (\<lambda>(k, v). (k, classified dl Falsy (arr k))) data"
    and n: "not_downloadable s = map (\<lambda>(k, v). (k, classified dl Raises (arr k))) data"
  shows "partitioned data s"
proof -
  have "case (entry (complete s) k, entry (incomplete s) k, entry (not_downloadable s) k) of
          (Some c, Some i, Some n) \<Rightarrow>
             mset c + mset i + mset n = mset v \<and>
             set c \<inter> set i = {} \<and> set c \<inter> set n = {} \<and> set i \<inter> set n = {}
        | _ \<Rightarrow> False" if kv: "(k, v) \<in> set data" for k v
  proof -
    have k: "k \<in> fst ` set data" using kv by (simp add: rev_image_eqI)
    have "mset (classified dl Truthy (arr k)) + mset (classified dl Falsy (arr k))
          + mset (classified dl Raises (arr k)) = mset v"
      using mset_classified [of dl "arr k"] arr [OF kv] by simp
    then show ?thesis
      by (simp add: c i n entry_map [OF k] classified_disjoint)
  qed
  then show ?thesis
    unfolding partitioned_def by (auto simp: c i n keys_map)
qed

lemma seq_partitioned:
  assumes "distinct (map fst data)"
  shows "partitioned data (classify_loop dl data (init_state data))"
proof (rule arranged_partitioned [where arr = "\<lambda>k. ids_of k (futures data)" and dl = dl])
  show "mset (ids_of k (futures data)) = mset v" if "(k, v) \<in> set data" for k v
    using ids_of_futures [OF assms that] by simp
qed (simp_all add: classify_loop_fold seq_dicts [OF assms])

lemma arrival_mset:
  assumes "distinct (map fst data)" "mset order = mset (futures data)" "(k, v) \<in> set data"
  shows "mset (ids_of k order) = mset v"
  using mset_ids_of [OF assms(2), of k] ids_of_futures [OF assms(1,3)] by simp

lemma run_pool_fold:
  "\<exists>order. mset order = mset (futures data) \<and>
     run_pool dl sched (futures data) (init_state data) = fold (par_step dl) order (init_state data)"
  by (rule run_pool_order)

lemma par_partitioned:
  assumes "distinct (map fst data)"
  shows "partitioned data (run_pool dl sched (futures data) (init_state data))"
proof -
  obtain order where o: "mset order = mset (futures data)"
    and r: "run_pool dl sched (futures data) (init_state data)
            = fold (par_step dl) order (init_state data)"
    using run_pool_fold by blast
  have "partitioned data (fold (par_step dl) order (init_state data))"
  proof (rule arranged_partitioned [where arr = "\<lambda>k. ids_of k order" and dl = dl])
    show "mset (ids_of k order) = mset v" if "(k, v) \<in> set data" for k v
      by (rule arrival_mset [OF assms o that])
  qed (simp_all only: par_dicts [OF assms])
  then show ?thesis by (simp only: r)
qed

lemma entry_drop_empty:
  "distinct (map fst d) \<Longrightarrow>
   entry (drop_empty d) k = (case entry d k of None \<Rightarrow> None | Some v \<Rightarrow> if v = [] then None else Some v)"
proof (induction d)
  case Nil
  show ?case by (simp add: entry_def drop_empty_def)
next
  case (Cons p d)
  obtain k' v' where p: "p = (k', v')" by (cases p)
  have absent: "map_of (filter (\<lambda>(k, v). v \<noteq> []) d) k' = None"
    using Cons.prems p by (auto simp: map_of_eq_None_iff)
  have absent': "map_of d k' = None"
    using Cons.prems p by (auto simp: map_of_eq_None_iff)
  show ?case
    using Cons p absent absent'
    by (auto simp: entry_def drop_empty_def split: option.splits)
qed

lemma no_empty_drop_empty: "[] \<notin> snd ` set (drop_empty d)"
  by (auto simp: drop_empty_def)

lemma file_lists_save_all:
  "file_lists (save_all c i n fs) COMPLETE_IDs_FILE k x
     \<longleftrightarrow> (case entry c k of None \<Rightarrow> False | Some ys \<Rightarrow> x \<in> set ys)"
  "file_lists (save_all c i n fs) INCOMPLETE_IDs_FILE k x
     \<longleftrightarrow> (case entry i k of None \<Rightarrow> False | Some ys \<Rightarrow> x \<in> set ys)"
  "file_lists (save_all c i n fs) NOT_DOWNLOADABLE_IDs_FILE k x
     \<longleftrightarrow> (case entry n k of None \<Rightarrow> False | Some ys \<Rightarrow> x \<in> set ys)"
  by (simp_all add: file_lists_def read_save_all)

lemma listed_pruned:
  assumes "distinct (map fst data)" "(k, v) \<in> set data"
  shows "(case entry (drop_empty (map (\<lambda>(k, v). (k, f k)) data)) k of
            None \<Rightarrow> False | Some ys \<Rightarrow> x \<in> set ys) \<longleftrightarrow> x \<in> set (f k)"
proof -
  have k: "k \<in> fst ` set data" using assms(2) by (simp add: rev_image_eqI)
  have d: "distinct (map fst (map (\<lambda>(k, v). (k, f k)) data))"
    using assms(1) by (simp only: keys_map)
  show ?thesis
    by (auto simp: entry_drop_empty [OF d] entry_map [OF k])
qed

lemma total_len_pos: "(k, v) \<in> set data \<Longrightarrow> x \<in> set v \<Longrightarrow> 0 < total_len data"
proof (induction data)
  case Nil
  then show ?case by simp
next
  case (Cons p data)
  then show ?case
    by (cases v) (auto simp: total_len_def)
qed

text \<open>What the final files list, given the dictionaries before the pruning.\<close>

lemma finish_lists:
  assumes dist: "distinct (map fst data)" and kv: "(k, v) \<in> set data" and x: "x \<in> set v"
    and arr: "set (arr k) = set v"
    and c: "complete s = map (\<lambda>(k, v). (k, classified dl Truthy (arr k))) data"
    and i: "incomplete s = map (\<lambda>(k, v). (k, classified dl Falsy (arr k))) data"
    and n: "not_downloadable s = map (\<lambda>(k, v). (k, classified dl Raises (arr k))) data"
  shows "file_lists (saved (finish number verbose s)) COMPLETE_IDs_FILE k x
           \<longleftrightarrow> outcome_of dl x = Truthy"
    and "file_lists (saved (finish number verbose s)) INCOMPLETE_IDs_FILE k x
           \<longleftrightarrow> outcome_of dl x = Falsy"
    and "file_lists (saved (finish number verbose s)) NOT_DOWNLOADABLE_IDs_FILE k x
           \<longleftrightarrow> outcome_of dl x = Raises"
  using x arr
  by (simp_all add: saved_finish file_lists_save_all c i n
                    listed_pruned [OF dist kv, where f = "\<lambda>k. classified dl _ (arr k)"]
                    set_classified)

lemma entry_Some: "distinct (map fst d) \<Longrightarrow> (k, v) \<in> set d \<Longrightarrow> entry d k = Some v"
  by (simp add: entry_def)

lemma pruned_drop_empty:
  assumes "distinct (map fst d)"
  shows "[] \<notin> snd ` set (drop_empty d) \<and> (\<forall>(k, v) \<in> set d. v = [] \<longrightarrow> entry (drop_empty d) k = None)"
  using assms by (auto simp: no_empty_drop_empty entry_drop_empty entry_Some)

lemma group_absent_map:
  assumes "distinct (map fst data)" "f k = []"
  shows "entry (drop_empty (map (\<lambda>(k, v). (k, f k)) data)) k = None"
proof -
  have d: "distinct (map fst (map (\<lambda>(k, v). (k, f k)) data))"
    using assms(1) by (simp only: keys_map)
  show ?thesis
  proof (cases "k \<in> fst ` set data")
    case True
    then show ?thesis using assms(2) by (simp add: entry_drop_empty [OF d] entry_map)
  next
    case False
    then show ?thesis by (simp add: entry_drop_empty [OF d] entry_map_absent)
  qed
qed

lemma classified_Nil: "set xs = {} \<Longrightarrow> classified dl r xs = []"
  by (simp add: classified_def)

text \<open>The pruning of the final files, given the dictionaries before the pruning.\<close>

lemma finish_pruned:
  assumes dist: "distinct (map fst data)"
    and arr: "\<And>k v. (k, v) \<in> set data \<Longrightarrow> set (arr k) = set v"
    and c: "complete s = map (\<lambda>(k, v). (k, classified dl Truthy (arr k))) data"
    and i: "incomplete s = map (\<lambda>(k, v). (k, classified dl Falsy (arr k))) data"
    and n: "not_downloadable s = map (\<lambda>(k, v). (k, classified dl Raises (arr k))) data"
  shows "pruned_file (complete s) (saved (finish number verbose s)) COMPLETE_IDs_FILE"
    and "pruned_file (incomplete s) (saved (finish number verbose s)) INCOMPLETE_IDs_FILE"
    and "pruned_file (not_downloadable s) (saved (finish number verbose s)) NOT_DOWNLOADABLE_IDs_FILE"
    and "(k, []) \<in> set data \<Longrightarrow>
         group_absent (saved (finish number verbose s)) COMPLETE_IDs_FILE k
         \<and> group_absent (saved (finish number verbose s)) INCOMPLETE_IDs_FILE k
         \<and> group_absent (saved (finish number verbose s)) NOT_DOWNLOADABLE_IDs_FILE k"
proof -
  have dc: "distinct (map fst (complete s))" "distinct (map fst (incomplete s))"
    "distinct (map fst (not_downloadable s))"
    using dist by (simp_all only: c i n keys_map)
  show "pruned_file (complete s) (saved (finish number verbose s)) COMPLETE_IDs_FILE"
    using pruned_drop_empty [OF dc(1)] by (simp add: pruned_file_def saved_finish read_save_all)
  show "pruned_file (incomplete s) (saved (finish number verbose s)) INCOMPLETE_IDs_FILE"
    using pruned_drop_empty [OF dc(2)] by (simp add: pruned_file_def saved_finish read_save_all)
  show "pruned_file (not_downloadable s) (saved (finish number verbose s)) NOT_DOWNLOADABLE_IDs_FILE"
    using pruned_drop_empty [OF dc(3)] by (simp add: pruned_file_def saved_finish read_save_all)
  show "group_absent (saved (finish number verbose s)) COMPLETE_IDs_FILE k
         \<and> group_absent (saved (finish number verbose s)) INCOMPLETE_IDs_FILE k
         \<and> group_absent (saved (finish number verbose s)) NOT_DOWNLOADABLE_IDs_FILE k"
    if "(k, []) \<in> set data"
  proof -
    have "set (arr k) = {}" using arr [OF that] by simp
    then have e: "classified dl r (arr k) = []" for r by (rule classified_Nil)
    show ?thesis
      by (simp add: group_absent_def saved_finish read_save_all c i n
                    group_absent_map [OF dist, where f = "\<lambda>k. classified dl _ (arr k)", OF e])
  qed
qed

lemma total_len_zero: "total_len data = 0 \<longleftrightarrow> (\<forall>(k, v) \<in> set data. v = [])"
  by (induction data) (auto simp: total_len_def)

lemma verbose_analysis_raises:
  "verbose_analysis c i n number = Inl ZeroDivisionError \<longleftrightarrow> number = 0"
  by (simp add: verbose_analysis_def Let_def)

lemma verbose_analysis_returns:
  "(\<exists>rep. verbose_analysis c i n number = Inr rep) \<longleftrightarrow> number \<noteq> 0"
  by (simp add: verbose_analysis_def Let_def)

lemma verbose_analysis_zero: "verbose_analysis c i n 0 = Inl ZeroDivisionError"
  by (simp add: verbose_analysis_def Let_def)

lemma map_fst_futures: "map fst (futures data) = all_ids data"
  by (induction data) (auto simp: futures_def all_ids_def comp_def)

lemma nth_futures: "j < total_len data \<Longrightarrow> fst (futures data ! j) = all_ids data ! j"
  using map_fst_futures [of data] length_futures [of data]
  by (metis nth_map)

lemma written_25:
  assumes len: "length ts = 25" and c: "count' s = 0"
    and o9: "outcome_of dl (fst (ts ! 9)) \<noteq> Raises"
    and o19: "outcome_of dl (fst (ts ! 19)) \<noteq> Raises"
  shows "written (fold (seq_step dl) ts s)
         = written s @ snapshot (fold (seq_step dl) (take 10 ts) s)
                     @ snapshot (fold (seq_step dl) (take 20 ts) s)"
proof -
  let ?g = "\<lambda>j. if (count' s + Suc j) mod 10 = 0 \<and> outcome_of dl (fst (ts ! j)) \<noteq> Raises
                 then snapshot (fold (seq_step dl) (take (Suc j) ts) s) else []"
  have other: "?g j = []" if "j < 25" "j \<noteq> 9" "j \<noteq> 19" for j
  proof -
    have "Suc j mod 10 \<noteq> 0" using that by presburger
    then show ?thesis by (simp add: c)
  qed
  have "concat (map ?g [0..<25]) = ?g 9 @ ?g 19"
    by (rule concat_two_of_25) (rule other)
  moreover have "?g 9 = snapshot (fold (seq_step dl) (take 10 ts) s)"
    using o9 by (simp add: c)
  moreover have "?g 19 = snapshot (fold (seq_step dl) (take 20 ts) s)"
    using o19 by (simp add: c)
  ultimately show ?thesis
    using seq_fold_written [of dl ts s] len by simp
qed


lemma checkpoints_25:
  assumes "total_len data = 25"
    and "outcome_of dl (all_ids data ! 9) \<noteq> Raises"
    and "outcome_of dl (all_ids data ! 19) \<noteq> Raises"
  shows "written (classify_loop dl data (init_state data))
         = snapshot (prefix_state dl data 10) @ snapshot (prefix_state dl data 20)"
    and "classify_loop dl data (init_state data) = prefix_state dl data 25"
proof -
  have len: "length (futures data) = 25"
    using assms(1) by (simp add: length_futures)
  have o: "outcome_of dl (fst (futures data ! 9)) \<noteq> Raises"
    "outcome_of dl (fst (futures data ! 19)) \<noteq> Raises"
    using assms by (simp_all add: nth_futures)
  have c: "count' (init_state data) = 0" and w: "written (init_state data) = []"
    by (simp_all add: init_state_def)
  show "written (classify_loop dl data (init_state data))
         = snapshot (prefix_state dl data 10) @ snapshot (prefix_state dl data 20)"
    using written_25 [OF len c o] by (simp add: classify_loop_fold prefix_state_def w)
  show "classify_loop dl data (init_state data) = prefix_state dl data 25"
    using len by (simp add: classify_loop_fold prefix_state_def)
qed

lemma count_snapshot:
  "length (filter (\<lambda>w. fst w = COMPLETE_IDs_FILE) (snapshot s)) = 1"
  by (simp add: snapshot_def files_distinct)

lemma total_len_data25: "total_len data25 = 25"
  by (simp add: total_len_def data25_def)

lemma all_ids_data25: "all_ids data25 ! 9 = ''a10''" "all_ids data25 ! 19 = ''b8''"
  by (simp_all add: all_ids_def data25_def)

lemma total_len_drop_empty: "total_len (drop_empty d) = total_len d"
  by (induction d) (auto simp: total_len_def drop_empty_def)

lemma length_classified:
  "length (classified dl Truthy xs) + length (classified dl Falsy xs)
   + length (classified dl Raises xs) = length xs"
proof -
  have "size (mset (classified dl Truthy xs) + mset (classified dl Falsy xs)
              + mset (classified dl Raises xs)) = size (mset xs)"
    by (simp only: mset_classified)
  then show ?thesis by simp
qed

lemma counts_total:
  "(\<forall>(k, v) \<in> set data. length (arr k) = length v) \<Longrightarrow>
   total_len (map (\<lambda>(k, v). (k, classified dl Truthy (arr k))) data)
   + total_len (map (\<lambda>(k, v). (k, classified dl Falsy (arr k))) data)
   + total_len (map (\<lambda>(k, v). (k, classified dl Raises (arr k))) data)
   = total_len data"
proof (induction data)
  case Nil
  show ?case by (simp add: total_len_def)
next
  case (Cons p data)
  obtain k v where p: "p = (k, v)" by (cases p)
  have "length (classified dl Truthy (arr k)) + length (classified dl Falsy (arr k))
        + length (classified dl Raises (arr k)) = length v"
    using Cons.prems p by (simp add: length_classified)
  moreover have "total_len (map (\<lambda>(k, v). (k, classified dl Truthy (arr k))) data)
   + total_len (map (\<lambda>(k, v). (k, classified dl Falsy (arr k))) data)
   + total_len (map (\<lambda>(k, v). (k, classified dl Raises (arr k))) data)
   = total_len data"
    using Cons by simp
  ultimately show ?case
    using p by (simp add: total_len_def)
qed

lemma ratio_le: "0 < y \<Longrightarrow> x / y * 100 \<le> 100 \<longleftrightarrow> x \<le> y" for x y :: rat
proof -
  assume y: "0 < y"
  have "x / y * 100 \<le> 100 \<longleftrightarrow> x * 100 / y \<le> 100" by simp
  also have "\<dots> \<longleftrightarrow> x * 100 \<le> 100 * y" using y by (rule pos_divide_le_eq)
  also have "\<dots> \<longleftrightarrow> x \<le> y" by linarith
  finally show ?thesis .
qed

lemma ratio_eq: "0 < y \<Longrightarrow> x / y * 100 = 100 \<longleftrightarrow> x = y" for x y :: rat
proof -
  assume y: "0 < y"
  have "x / y * 100 = 100 \<longleftrightarrow> x * 100 / y = 100" by simp
  also have "\<dots> \<longleftrightarrow> x * 100 = 100 * y" using y by (simp add: divide_eq_eq)
  also have "\<dots> \<longleftrightarrow> x = y" by linarith
  finally show ?thesis .
qed

lemma exact_sum:
  assumes "number \<noteq> 0"
  shows "exact_percentage a number + exact_percentage b number + exact_percentage c number \<le> 100
         \<longleftrightarrow> a + b + c \<le> number"
    and "exact_percentage a number + exact_percentage b number + exact_percentage c number = 100
         \<longleftrightarrow> a + b + c = number"
proof -
  have pos: "(0::rat) < of_nat number" using assms by simp
  have s: "exact_percentage a number + exact_percentage b number + exact_percentage c number
        = of_nat (a + b + c) / of_nat number * 100"
    by (simp add: exact_percentage_def add_divide_distrib distrib_right)
  show "exact_percentage a number + exact_percentage b number + exact_percentage c number \<le> 100
         \<longleftrightarrow> a + b + c \<le> number"
    unfolding s ratio_le [OF pos] by (rule of_nat_le_iff)
  show "exact_percentage a number + exact_percentage b number + exact_percentage c number = 100
         \<longleftrightarrow> a + b + c = number"
    unfolding s ratio_eq [OF pos] by (rule of_nat_eq_iff)
qed

lemma verbose_analysis_drop_empty:
  "verbose_analysis (drop_empty c) (drop_empty i) (drop_empty n) number
   = verbose_analysis c i n number"
  by (simp add: verbose_analysis_def total_len_drop_empty)

lemma length_of_mset: "mset xs = mset ys \<Longrightarrow> length xs = length ys"
  by (rule mset_eq_length)

text \<open>
  The rounding on some values: numbers with a short binary expansion are kept, thirds
  are rounded to 53 bits, and an integer halfway between two neighbours goes to the
  even one.
\<close>

lemma to_double_examples:
  "to_double 100 = 100"
  "to_double (1 / 2) = 1 / 2"
  "to_double (1 / 3) = 6004799503160661 / 18014398509481984"
  "to_double (2 / 3) = 6004799503160661 / 9007199254740992"
  "to_double (1 / 10) = 3602879701896397 / 36028797018963968"
  "to_double 9007199254740993 = 9007199254740992"
  "to_double 9007199254740995 = 9007199254740996"
  by code_simp+

lemma double_percentages:
  "float_mul (int_truediv 1 6) 100 = 2345624805922133 / 140737488355328"
  "float_mul (int_truediv 5 6) 100 = 2932031007402667 / 35184372088832"
  "float_mul (int_truediv 0 6) 100 = 0"
  "float_mul (int_truediv 1 3) 100 = 2345624805922133 / 70368744177664"
  by code_simp+

section \<open>The heap model\<close>

lemma untouched_iff: "untouched h h' \<longleftrightarrow> length h \<le> length h' \<and> (\<forall>r < length h. h' ! r = h ! r)"
proof
  assume u: "untouched h h'"
  then have "length (take (length h) h') = length h" by (simp add: untouched_def)
  then have l: "length h \<le> length h'" by simp
  moreover have "h' ! r = h ! r" if "r < length h" for r
    using u that by (metis nth_take untouched_def)
  ultimately show "length h \<le> length h' \<and> (\<forall>r < length h. h' ! r = h ! r)" by blast
next
  assume "length h \<le> length h' \<and> (\<forall>r < length h. h' ! r = h ! r)"
  then show "untouched h h'"
    by (auto simp: untouched_def intro: nth_equalityI)
qed

lemma new_lists_eq:
  "new_lists ks h = (zip ks [length h..<length h + length ks], h @ replicate (length ks) [])"
proof (induction ks arbitrary: h)
  case Nil
  show ?case by simp
next
  case (Cons k ks)
  have "[length h..<length h + Suc (length ks)]
        = length h # [Suc (length h)..<length h + Suc (length ks)]"
    by (rule upt_conv_Cons) simp
  then have u: "zip (k # ks) [length h..<length h + Suc (length ks)]
        = (k, length h) # zip ks [Suc (length h)..<Suc (length h) + length ks]"
    by simp
  have "new_lists (k # ks) h
        = ((k, length h) # zip ks [Suc (length h)..<Suc (length h) + length ks],
           (h @ [[]]) @ replicate (length ks) [])"
    by (simp add: Cons.IH)
  also have "(h @ [[]]) @ replicate (length ks) [] = h @ replicate (length (k # ks)) []"
    by simp
  finally show ?case
    using u by simp
qed

lemma deref_zip_fresh:
  assumes "length ks = n" "\<And>r. a \<le> r \<Longrightarrow> r < a + n \<Longrightarrow> h ! r = []"
  shows "deref h (zip ks [a..<a + n]) = map (\<lambda>k. (k, [])) ks"
proof (rule nth_equalityI)
  show "length (deref h (zip ks [a..<a + n])) = length (map (\<lambda>k. (k, [])) ks)"
    using assms(1) by (simp add: deref_def)
next
  fix j assume "j < length (deref h (zip ks [a..<a + n]))"
  then have j: "j < n" using assms(1) by (simp add: deref_def)
  then show "deref h (zip ks [a..<a + n]) ! j = map (\<lambda>k. (k, [])) ks ! j"
    using assms by (simp add: deref_def)
qed

lemma h_init_eq:
  "h_init data h
   = \<lparr>heap = h @ replicate (3 * length data) [],
      complete_at = zip (map fst data) [length h..<length h + length data],
      incomplete_at = zip (map fst data) [length h + length data..<length h + length data + length data],
      not_downloadable_at =
        zip (map fst data) [length h + 2 * length data..<length h + 2 * length data + length data],
      h_count = 0, h_written = []\<rparr>"
  by (simp add: h_init_def new_lists_eq replicate_add [symmetric] add.assoc mult_2 numeral_3_eq_3)


lemma keys_deref: "map fst (deref h d) = map fst d"
  by (induction d) (auto simp: deref_def)

lemma fresh_cell: "length h \<le> r \<Longrightarrow> r < length h + n \<Longrightarrow> (h @ replicate n []) ! r = []"
  by (simp add: nth_append)

lemma view_init: "view (h_init data h) = init_state (deref h data)"
proof -
  let ?m = "length data"
  let ?H = "h @ replicate (3 * ?m) []"
  have cell: "?H ! r = []" if "length h \<le> r" "r < length h + 3 * ?m" for r
    using that by (rule fresh_cell)
  have l: "length (map fst data) = ?m" by simp
  have "deref ?H (zip (map fst data) [length h..<length h + ?m]) = empty_lists (deref h data)"
    unfolding empty_lists_def keys_deref
    by (rule deref_zip_fresh [OF l]) (simp add: cell)
  moreover have "deref ?H (zip (map fst data) [length h + ?m..<length h + ?m + ?m])
                 = empty_lists (deref h data)"
    unfolding empty_lists_def keys_deref
    by (rule deref_zip_fresh [OF l]) (simp add: cell)
  moreover have "deref ?H (zip (map fst data) [length h + 2 * ?m..<length h + 2 * ?m + ?m])
                 = empty_lists (deref h data)"
    unfolding empty_lists_def keys_deref
    by (rule deref_zip_fresh [OF l]) (simp add: cell)
  ultimately show ?thesis
    by (simp add: view_def h_init_eq init_state_def)
qed

lemma init_untouched: "untouched h (heap (h_init data h))"
  by (simp add: h_init_eq untouched_def)

lemma upt_three: "[a..<a + m] @ [a + m..<a + m + m] @ [a + 2 * m..<a + 2 * m + m] = [a..<a + 3 * m]"
proof -
  have e: "a + 2 * m = a + m + m" "a + 3 * m = a + m + m + m" by simp_all
  have "[a..<a + m + m + m] = [a..<a + m + m] @ [a + m + m..<a + m + m + m]"
    by (rule upt_add_eq_append) simp
  also have "[a..<a + m + m] = [a..<a + m] @ [a + m..<a + m + m]"
    by (rule upt_add_eq_append) simp
  finally show ?thesis
    unfolding e by simp
qed

lemma init_fresh:
  assumes "distinct (map fst data)"
  shows "fresh_refs (length h) (h_init data h)"
proof -
  let ?m = "length data"
  let ?A = "[length h..<length h + ?m]"
  let ?B = "[length h + ?m..<length h + ?m + ?m]"
  let ?C = "[length h + 2 * ?m..<length h + 2 * ?m + ?m]"
  have snd_zip: "map snd (zip (map fst data) [a..<a + ?m]) = [a..<a + ?m]" for a
    by (simp add: map_snd_zip)
  have fst_zip: "map fst (zip (map fst data) [a..<a + ?m]) = map fst data" for a
    by (simp add: map_fst_zip)
  have cat: "?A @ ?B @ ?C = [length h..<length h + 3 * ?m]"
    by (rule upt_three)
  have refs: "map snd (complete_at (h_init data h) @ incomplete_at (h_init data h)
                @ not_downloadable_at (h_init data h)) = [length h..<length h + 3 * ?m]"
    by (simp only: h_init_eq hstate.simps map_append snd_zip cat)
  have "distinct (map snd (complete_at (h_init data h) @ incomplete_at (h_init data h)
                @ not_downloadable_at (h_init data h)))"
    unfolding refs by simp
  moreover have "\<forall>r \<in> snd ` set (complete_at (h_init data h) @ incomplete_at (h_init data h)
                     @ not_downloadable_at (h_init data h)).
                   length h \<le> r \<and> r < length (heap (h_init data h))"
    unfolding set_map [symmetric] refs by (simp add: h_init_eq)
  moreover have "distinct (map fst (complete_at (h_init data h)))"
    "distinct (map fst (incomplete_at (h_init data h)))"
    "distinct (map fst (not_downloadable_at (h_init data h)))"
    using assms by (simp_all only: h_init_eq hstate.simps fst_zip)
  ultimately show ?thesis
    unfolding fresh_refs_def by blast
qed


lemma deref_update_other: "r0 \<notin> snd ` set d \<Longrightarrow> deref (h[r0 := v]) d = deref h d"
  by (induction d) (auto simp: deref_def)

lemma dict_append_absent: "k \<notin> fst ` set d \<Longrightarrow> dict_append k x d = d"
  by (induction d) auto

lemma deref_update_own:
  "map_of d k = Some r0 \<Longrightarrow> distinct (map snd d) \<Longrightarrow> \<forall>r \<in> snd ` set d. r < length h \<Longrightarrow>
   deref (h[r0 := h ! r0 @ [x]]) d = dict_append k x (deref h d)"
proof (induction d)
  case Nil
  then show ?case by simp
next
  case (Cons p d)
  obtain k' r where p: "p = (k', r)" by (cases p)
  show ?case
  proof (cases "k' = k")
    case True
    then have r: "r = r0" using Cons.prems(1) p by simp
    then have "r0 \<notin> snd ` set d" using Cons.prems(2) p by auto
    then have "deref (h[r0 := h ! r0 @ [x]]) d = deref h d"
      by (rule deref_update_other)
    then show ?thesis
      using True r p Cons.prems(3) by (simp add: deref_def)
  next
    case False
    then have m: "map_of d k = Some r0" using Cons.prems(1) p by simp
    then have "r0 \<in> snd ` set d" by (metis map_of_SomeD snd_conv image_eqI)
    then have "r \<noteq> r0" using Cons.prems(2) p by auto
    moreover have "deref (h[r0 := h ! r0 @ [x]]) d = dict_append k x (deref h d)"
      using Cons.IH [OF m] Cons.prems(2,3) by simp
    ultimately show ?thesis
      using False p by (simp add: deref_def)
  qed
qed

lemma deref_list_append_own:
  assumes "distinct (map snd d)" "\<forall>r \<in> snd ` set d. r < length h"
  shows "deref (list_append d k x h) d = dict_append k x (deref h d)"
proof (cases "map_of d k")
  case None
  then have "k \<notin> fst ` set (deref h d)"
    by (simp add: map_of_eq_None_iff keys_deref flip: set_map)
  then show ?thesis
    using None by (simp add: list_append_def dict_append_absent)
next
  case (Some r0)
  then show ?thesis
    using deref_update_own [OF Some assms] by (simp add: list_append_def)
qed

lemma deref_list_append_other:
  assumes "snd ` set d \<inter> snd ` set d' = {}"
  shows "deref (list_append d k x h) d' = deref h d'"
proof (cases "map_of d k")
  case None
  then show ?thesis by (simp add: list_append_def)
next
  case (Some r0)
  then have "r0 \<in> snd ` set d" by (metis map_of_SomeD snd_conv image_eqI)
  then have "r0 \<notin> snd ` set d'" using assms by blast
  then show ?thesis
    using Some by (simp add: list_append_def deref_update_other)
qed

lemma length_list_append: "length (list_append d k x h) = length h"
  by (simp add: list_append_def split: option.splits)

lemma list_append_below:
  assumes "\<forall>r \<in> snd ` set d. b \<le> r" "r' < b"
  shows "list_append d k x h ! r' = h ! r'"
proof (cases "map_of d k")
  case None
  then show ?thesis by (simp add: list_append_def)
next
  case (Some r0)
  then have "r0 \<in> snd ` set d" by (metis map_of_SomeD snd_conv image_eqI)
  then have "r0 \<noteq> r'" using assms by auto
  then show ?thesis
    using Some by (simp add: list_append_def)
qed


lemma fresh_refsD:
  assumes "fresh_refs b s"
  shows "distinct (map snd (complete_at s))" "distinct (map snd (incomplete_at s))"
    "distinct (map snd (not_downloadable_at s))"
    "snd ` set (complete_at s) \<inter> snd ` set (incomplete_at s) = {}"
    "snd ` set (complete_at s) \<inter> snd ` set (not_downloadable_at s) = {}"
    "snd ` set (incomplete_at s) \<inter> snd ` set (not_downloadable_at s) = {}"
    "\<forall>r \<in> snd ` set (complete_at s). r < length (heap s)"
    "\<forall>r \<in> snd ` set (incomplete_at s). r < length (heap s)"
    "\<forall>r \<in> snd ` set (not_downloadable_at s). r < length (heap s)"
  using assms unfolding fresh_refs_def by (auto simp: image_Un)

lemma fresh_refs_above:
  assumes "fresh_refs b s"
  shows "\<forall>r \<in> snd ` set (complete_at s). b \<le> r"
    "\<forall>r \<in> snd ` set (incomplete_at s). b \<le> r"
    "\<forall>r \<in> snd ` set (not_downloadable_at s). b \<le> r"
  using assms unfolding fresh_refs_def by (auto simp: image_Un)

lemma fresh_refs_heap:
  "fresh_refs b s \<Longrightarrow> length h' = length (heap s) \<Longrightarrow> fresh_refs b (s\<lparr>heap := h'\<rparr>)"
  by (simp add: fresh_refs_def)

lemma fresh_refs_count [simp]: "fresh_refs b (s\<lparr>h_count := c\<rparr>) = fresh_refs b s"
  by (simp add: fresh_refs_def)

lemma fresh_refs_written [simp]: "fresh_refs b (s\<lparr>h_written := w\<rparr>) = fresh_refs b s"
  by (simp add: fresh_refs_def)

lemma view_save_progress: "view (h_save_progress s) = save_progress (view s)"
  by (simp add: h_save_progress_def save_progress_def view_def)

lemma heap_save_progress [simp]: "heap (h_save_progress s) = heap s"
  by (simp add: h_save_progress_def)

lemma fresh_save_progress [simp]: "fresh_refs b (h_save_progress s) = fresh_refs b s"
  by (simp add: h_save_progress_def)

lemma view_append_complete:
  assumes "fresh_refs b s"
  shows "view (s\<lparr>heap := list_append (complete_at s) k x (heap s)\<rparr>)
         = (view s)\<lparr>complete := dict_append k x (complete (view s))\<rparr>"
  using fresh_refsD [OF assms]
  by (simp add: view_def deref_list_append_own deref_list_append_other)

lemma view_append_incomplete:
  assumes "fresh_refs b s"
  shows "view (s\<lparr>heap := list_append (incomplete_at s) k x (heap s)\<rparr>)
         = (view s)\<lparr>incomplete := dict_append k x (incomplete (view s))\<rparr>"
  using fresh_refsD [OF assms]
  by (simp add: view_def deref_list_append_own deref_list_append_other Int_commute)

lemma view_append_not_downloadable:
  assumes "fresh_refs b s"
  shows "view (s\<lparr>heap := list_append (not_downloadable_at s) k x (heap s)\<rparr>)
         = (view s)\<lparr>not_downloadable := dict_append k x (not_downloadable (view s))\<rparr>"
  using fresh_refsD [OF assms]
  by (simp add: view_def deref_list_append_own deref_list_append_other Int_commute)

lemma view_count: "view (s\<lparr>h_count := c\<rparr>) = (view s)\<lparr>count' := c\<rparr>"
  by (simp add: view_def)

lemma count_view: "count' (view s) = h_count s"
  by (simp add: view_def)

lemma view_loop_body:
  assumes "fresh_refs b s"
  shows "view (h_loop_body dl k x s) = loop_body dl k x (view s)"
proof -
  let ?s1 = "s\<lparr>h_count := h_count s + 1\<rparr>"
  have f: "fresh_refs b ?s1" using assms by simp
  have v1: "view ?s1 = (view s)\<lparr>count' := count' (view s) + 1\<rparr>"
    by (simp add: view_def)
  show ?thesis
  proof (cases "dl COMPLETE_PDB_FILES (x @ ''.pdb'')")
    case Truthy
    have "view (h_loop_body dl k x s)
          = save_progress (view (?s1\<lparr>heap := list_append (complete_at ?s1) k x (heap ?s1)\<rparr>))"
      using Truthy by (simp add: h_loop_body_def Let_def view_save_progress)
    also have "\<dots> = loop_body dl k x (view s)"
      unfolding view_append_complete [OF f] v1
      using Truthy by (simp add: loop_body_def Let_def)
    finally show ?thesis .
  next
    case Falsy
    have "view (h_loop_body dl k x s)
          = save_progress (view (?s1\<lparr>heap := list_append (incomplete_at ?s1) k x (heap ?s1)\<rparr>))"
      using Falsy by (simp add: h_loop_body_def Let_def view_save_progress)
    also have "\<dots> = loop_body dl k x (view s)"
      unfolding view_append_incomplete [OF f] v1
      using Falsy by (simp add: loop_body_def Let_def)
    finally show ?thesis .
  next
    case Raises
    have "view (h_loop_body dl k x s)
          = view (?s1\<lparr>heap := list_append (not_downloadable_at ?s1) k x (heap ?s1)\<rparr>)"
      using Raises by (simp add: h_loop_body_def Let_def)
    also have "\<dots> = loop_body dl k x (view s)"
      unfolding view_append_not_downloadable [OF f] v1
      using Raises by (simp add: loop_body_def Let_def)
    finally show ?thesis .
  qed
qed

lemma fresh_loop_body:
  assumes "fresh_refs b s"
  shows "fresh_refs b (h_loop_body dl k x s)"
  using assms
  by (simp add: h_loop_body_def Let_def fresh_refs_heap length_list_append
           split: download_result.splits)

lemma below_loop_body:
  assumes "fresh_refs b s" "r < b"
  shows "heap (h_loop_body dl k x s) ! r = heap s ! r"
  using assms(2)
  by (simp add: h_loop_body_def Let_def list_append_below [OF fresh_refs_above(1) [OF assms(1)]]
                list_append_below [OF fresh_refs_above(2) [OF assms(1)]]
                list_append_below [OF fresh_refs_above(3) [OF assms(1)]]
           split: download_result.splits)

lemma length_loop_body: "length (heap (h_loop_body dl k x s)) = length (heap s)"
  by (simp add: h_loop_body_def Let_def length_list_append split: download_result.splits)

lemma view_process_pdb:
  assumes "fresh_refs b s"
  shows "view (h_process_pdb dl x k s) = process_pdb dl x k (view s)"
  by (simp add: h_process_pdb_def process_pdb_def view_append_complete [OF assms]
                view_append_incomplete [OF assms] view_append_not_downloadable [OF assms]
           split: download_result.splits)

lemma fresh_process_pdb:
  assumes "fresh_refs b s"
  shows "fresh_refs b (h_process_pdb dl x k s)"
  using assms
  by (simp add: h_process_pdb_def fresh_refs_heap length_list_append
           split: download_result.splits)

lemma below_process_pdb:
  assumes "fresh_refs b s" "r < b"
  shows "heap (h_process_pdb dl x k s) ! r = heap s ! r"
  using assms(2)
  by (simp add: h_process_pdb_def list_append_below [OF fresh_refs_above(1) [OF assms(1)]]
                list_append_below [OF fresh_refs_above(2) [OF assms(1)]]
                list_append_below [OF fresh_refs_above(3) [OF assms(1)]]
           split: download_result.splits)

lemma length_process_pdb: "length (heap (h_process_pdb dl x k s)) = length (heap s)"
  by (simp add: h_process_pdb_def length_list_append split: download_result.splits)

lemma frame_loop_body:
  assumes "frame h s"
  shows "frame h (h_loop_body dl k x s)"
proof -
  have f: "fresh_refs (length h) s" and u: "untouched h (heap s)"
    using assms by (simp_all add: frame_def)
  have "untouched h (heap (h_loop_body dl k x s))"
    using u by (simp add: untouched_iff length_loop_body below_loop_body [OF f])
  then show ?thesis
    using fresh_loop_body [OF f] by (simp add: frame_def)
qed

lemma frame_process_pdb:
  assumes "frame h s"
  shows "frame h (h_process_pdb dl x k s)"
proof -
  have f: "fresh_refs (length h) s" and u: "untouched h (heap s)"
    using assms by (simp_all add: frame_def)
  have "untouched h (heap (h_process_pdb dl x k s))"
    using u by (simp add: untouched_iff length_process_pdb below_process_pdb [OF f])
  then show ?thesis
    using fresh_process_pdb [OF f] by (simp add: frame_def)
qed

lemma frame_fold: "frame h s \<Longrightarrow> frame h (fold (h_loop_body dl k) xs s)"
  by (induction xs arbitrary: s) (simp_all add: frame_loop_body)

lemma view_fold:
  "frame h s \<Longrightarrow> view (fold (h_loop_body dl k) xs s) = fold (loop_body dl k) xs (view s)"
proof (induction xs arbitrary: s)
  case Nil
  show ?case by simp
next
  case (Cons x xs)
  have "fresh_refs (length h) s" using Cons.prems by (simp add: frame_def)
  then have "view (h_loop_body dl k x s) = loop_body dl k x (view s)"
    by (rule view_loop_body)
  then show ?case
    using Cons.IH [OF frame_loop_body [OF Cons.prems]] by simp
qed

lemma frame_nth: "frame h s \<Longrightarrow> r < length h \<Longrightarrow> heap s ! r = h ! r"
  by (simp add: frame_def untouched_iff)

lemma inner_loop_runs:
  "frame h s \<Longrightarrow> r < length h \<Longrightarrow> n = length (h ! r) - i \<Longrightarrow>
   h_inner_loop dl k r i s = Some (fold (h_loop_body dl k) (drop i (h ! r)) s)"
proof (induction n arbitrary: i s)
  case 0
  then have "\<not> i < length (heap s ! r)" by (simp add: frame_nth)
  then show ?case
    using 0 by (subst h_inner_loop.simps) simp
next
  case (Suc n)
  then have i: "i < length (h ! r)" by simp
  have here: "heap s ! r = h ! r" using Suc.prems by (simp add: frame_nth)
  have step: "h_inner_loop dl k r i s
              = h_inner_loop dl k r (Suc i) (h_loop_body dl k (h ! r ! i) s)"
    using i here by (subst h_inner_loop.simps) simp
  have "n = length (h ! r) - Suc i" using Suc.prems(3) by simp
  then have "h_inner_loop dl k r (Suc i) (h_loop_body dl k (h ! r ! i) s)
             = Some (fold (h_loop_body dl k) (drop (Suc i) (h ! r)) (h_loop_body dl k (h ! r ! i) s))"
    using Suc.IH [OF frame_loop_body [OF Suc.prems(1)] Suc.prems(2)] by simp
  moreover have "drop i (h ! r) = h ! r ! i # drop (Suc i) (h ! r)"
    using i by (simp add: Cons_nth_drop_Suc)
  ultimately show ?case
    using step by simp
qed

lemma outer_loop_runs:
  "frame h s \<Longrightarrow> \<forall>(k, r) \<in> set items. r < length h \<Longrightarrow>
   \<exists>s'. h_outer_loop dl items s = Some s' \<and> frame h s'
        \<and> view s' = classify_loop dl (deref h items) (view s)"
proof (induction items arbitrary: s)
  case Nil
  then show ?case by (simp add: classify_loop_def deref_def)
next
  case (Cons p items)
  obtain k r where p: "p = (k, r)" by (cases p)
  have r: "r < length h" using Cons.prems(2) p by simp
  let ?s1 = "fold (h_loop_body dl k) (h ! r) s"
  have inner: "h_inner_loop dl k r 0 s = Some ?s1"
    using inner_loop_runs [OF Cons.prems(1) r, of "length (h ! r)" 0 dl k] by simp
  have f1: "frame h ?s1" by (rule frame_fold [OF Cons.prems(1)])
  have v1: "view ?s1 = fold (loop_body dl k) (h ! r) (view s)"
    by (rule view_fold [OF Cons.prems(1)])
  obtain s' where s': "h_outer_loop dl items ?s1 = Some s'" "frame h s'"
    "view s' = classify_loop dl (deref h items) (view ?s1)"
    using Cons.IH [OF f1] Cons.prems(2) by auto
  have "h_outer_loop dl (p # items) s = Some s'"
    using p inner s'(1) by simp
  moreover have "view s' = classify_loop dl (deref h (p # items)) (view s)"
    using s'(3) v1 p by (simp add: classify_loop_def deref_def)
  ultimately show ?case
    using s'(2) by blast
qed

lemma deref_h_drop_empty: "deref h (h_drop_empty h d) = drop_empty (deref h d)"
  by (induction d) (auto simp: deref_def h_drop_empty_def drop_empty_def)

lemma h_finish_view: "h_finish number verbose s = finish number verbose (view s)"
  by (simp add: h_finish_def finish_def view_def deref_h_drop_empty)

lemma deref_untouched:
  assumes "untouched h h'" "\<forall>(k, r) \<in> set d. r < length h"
  shows "deref h' d = deref h d"
  using assms by (auto simp: deref_def untouched_iff)

lemma pool_runs:
  "frame h s \<Longrightarrow>
   frame h (h_run_pool dl sched ts s) \<and> view (h_run_pool dl sched ts s) = run_pool dl sched ts (view s)"
proof (induction dl sched ts s rule: h_run_pool.induct)
  case (1 dl sched s)
  then show ?case by simp
next
  case (2 dl sched t ts s)
  let ?j = "next_task sched (length (t # ts))"
  let ?x = "fst ((t # ts) ! ?j)" and ?k = "snd ((t # ts) ! ?j)"
  have f: "fresh_refs (length h) s" using "2.prems" by (simp add: frame_def)
  have v: "view (h_process_pdb dl ?x ?k s) = process_pdb dl ?x ?k (view s)"
    by (rule view_process_pdb [OF f])
  show ?case
    using "2.IH" [OF frame_process_pdb [OF "2.prems"]] v by simp
qed

lemma example_run:
  "h_classify_pdb_batch example_download example_refs False example_heap
   = Some (\<lparr>saved = [(COMPLETE_IDs_FILE, [(''A'', [''x1''])]),
                       (INCOMPLETE_IDs_FILE, [(''A'', [''x2''])]),
                       (NOT_DOWNLOADABLE_IDs_FILE, [(''B'', [''y1''])])],
            summary = None, result = Inr None\<rparr>,
           [[''x1'', ''x2''], [''y1''], [''x1''], [], [''x2''], [], [], [''y1'']])"
  by (simp add: h_classify_pdb_batch_def h_init_def example_refs_def example_heap_def
                h_inner_loop.simps h_loop_body_def h_save_progress_def list_append_def
                example_download_def h_finish_def h_drop_empty_def deref_def save_all_def
                save_pkl_def total_len_def)

section \<open>Properties of the batch runs\<close>

text \<open>
  Claim C5. In sequential mode, the sequence a group has in each of the three
  dictionaries when the loops end is the subsequence of the group's input list made of
  the identifiers with that classification, in input order; and the three files hold
  these dictionaries without their empty groups when the run ends.
\<close>

theorem sequential_keeps_input_order:
  assumes "distinct (map fst data)"
  shows "complete (classify_loop dl data (init_state data))
           = map (\<lambda>(k, v). (k, classified dl Truthy v)) data
       \<and> incomplete (classify_loop dl data (init_state data))
           = map (\<lambda>(k, v). (k, classified dl Falsy v)) data
       \<and> not_downloadable (classify_loop dl data (init_state data))
           = map (\<lambda>(k, v). (k, classified dl Raises v)) data
       \<and> read_pkl COMPLETE_IDs_FILE (saved (classify_pdb_batch dl data verbose))
           = Some (drop_empty (map (\<lambda>(k, v). (k, classified dl Truthy v)) data))
       \<and> read_pkl INCOMPLETE_IDs_FILE (saved (classify_pdb_batch dl data verbose))
           = Some (drop_empty (map (\<lambda>(k, v). (k, classified dl Falsy v)) data))
       \<and> read_pkl NOT_DOWNLOADABLE_IDs_FILE (saved (classify_pdb_batch dl data verbose))
           = Some (drop_empty (map (\<lambda>(k, v). (k, classified dl Raises v)) data))"
  by (simp add: classify_loop_dicts [OF assms] classify_pdb_batch_def saved_finish
                read_save_all)

theorem sequential_keeps_input_order_witness:
  "distinct (map fst example_data)
   \<and> complete (classify_loop example_download example_data (init_state example_data))
       = [(''A'', [''x1'']), (''B'', [])]
   \<and> incomplete (classify_loop example_download example_data (init_state example_data))
       = [(''A'', [''x2'']), (''B'', [])]
   \<and> not_downloadable (classify_loop example_download example_data (init_state example_data))
       = [(''A'', []), (''B'', [''y1''])]
   \<and> read_pkl COMPLETE_IDs_FILE (saved (classify_pdb_batch example_download example_data False))
       = Some [(''A'', [''x1''])]
   \<and> read_pkl INCOMPLETE_IDs_FILE (saved (classify_pdb_batch example_download example_data False))
       = Some [(''A'', [''x2''])]
   \<and> read_pkl NOT_DOWNLOADABLE_IDs_FILE (saved (classify_pdb_batch example_download example_data False))
       = Some [(''B'', [''y1''])]"
  using sequential_keeps_input_order [of example_data example_download False]
  by (simp add: example_data_def classified_def outcome_of_def example_download_def
                drop_empty_def)

text \<open>
  Claim C1. For every input dictionary and every downloader (a function of the
  identifier, hence deterministic), when all identifiers are processed and before the
  pruning, the three dictionaries partition the input, in the sequential run and in
  every run of the pool: each identifier of a group is under that group in exactly one
  dictionary, as often as in the input, and nothing else is there.
\<close>

theorem every_identifier_in_exactly_one_category:
  assumes "distinct (map fst data)"
  shows "partitioned data (classify_loop dl data (init_state data))
       \<and> partitioned data (run_pool dl sched (futures data) (init_state data))"
  using seq_partitioned [OF assms] par_partitioned [OF assms] by simp

theorem every_identifier_in_exactly_one_category_witness:
  "distinct (map fst example_data)
   \<and> partitioned example_data (classify_loop example_download example_data (init_state example_data))
   \<and> partitioned example_data
        (run_pool example_download [2, 0, 0] (futures example_data) (init_state example_data))
   \<and> run_pool example_download [2, 0, 0] (futures example_data) (init_state example_data)
       = \<lparr>complete = [(''A'', [''x1'']), (''B'', [])], incomplete = [(''A'', [''x2'']), (''B'', [])],
          not_downloadable = [(''A'', []), (''B'', [''y1''])], count' = 0, written = []\<rparr>"
proof -
  have h: "distinct (map fst example_data)"
    by (simp add: example_data_def)
  have e: "run_pool example_download [2, 0, 0] (futures example_data) (init_state example_data)
       = \<lparr>complete = [(''A'', [''x1'']), (''B'', [])], incomplete = [(''A'', [''x2'']), (''B'', [])],
          not_downloadable = [(''A'', []), (''B'', [''y1''])], count' = 0, written = []\<rparr>"
    by (simp add: example_data_def futures_def init_state_def empty_lists_def next_task_def
                  remove_nth_def process_pdb_def example_download_def)
  from every_identifier_in_exactly_one_category [OF h, of example_download "[2, 0, 0]"] h e
  show ?thesis by blast
qed

text \<open>
  Claim C2. Whatever the call of \<open>download_pdb\<close> does for an identifier of the input,
  the batch run ends by returning (no exception leaves it), in the sequential mode and
  in every run of the pool; and the final files list the identifier under its group in
  the file of not downloadable identifiers exactly when the call raises, in the file of
  complete ones exactly when it returns a truthy value, and in the file of incomplete
  ones exactly when it returns a falsy value. This holds for every identifier of the
  input, wherever it stands relative to identifiers whose call raises.
\<close>

theorem download_exception_contained:
  assumes dist: "distinct (map fst data)" and kv: "(k, v) \<in> set data" and x: "pdb_id \<in> set v"
  shows "result (classify_pdb_batch dl data verbose) = Inr None
       \<and> (file_lists (saved (classify_pdb_batch dl data verbose)) COMPLETE_IDs_FILE k pdb_id
            \<longleftrightarrow> outcome_of dl pdb_id = Truthy)
       \<and> (file_lists (saved (classify_pdb_batch dl data verbose)) INCOMPLETE_IDs_FILE k pdb_id
            \<longleftrightarrow> outcome_of dl pdb_id = Falsy)
       \<and> (file_lists (saved (classify_pdb_batch dl data verbose)) NOT_DOWNLOADABLE_IDs_FILE k pdb_id
            \<longleftrightarrow> outcome_of dl pdb_id = Raises)
       \<and> result (parallel_classify_pdb_batch dl sched data verbose) = Inr None
       \<and> (file_lists (saved (parallel_classify_pdb_batch dl sched data verbose)) COMPLETE_IDs_FILE k pdb_id
            \<longleftrightarrow> outcome_of dl pdb_id = Truthy)
       \<and> (file_lists (saved (parallel_classify_pdb_batch dl sched data verbose)) INCOMPLETE_IDs_FILE k pdb_id
            \<longleftrightarrow> outcome_of dl pdb_id = Falsy)
       \<and> (file_lists (saved (parallel_classify_pdb_batch dl sched data verbose)) NOT_DOWNLOADABLE_IDs_FILE k pdb_id
            \<longleftrightarrow> outcome_of dl pdb_id = Raises)"
proof -
  have pos: "total_len data \<noteq> 0"
    using total_len_pos [OF kv x] by simp
  let ?s = "fold (seq_step dl) (futures data) (init_state data)"
  have seq: "classify_pdb_batch dl data verbose = finish (total_len data) verbose ?s"
    by (simp add: classify_pdb_batch_def classify_loop_fold)
  have seq_arr: "set (ids_of k (futures data)) = set v"
    by (simp add: ids_of_futures [OF dist kv])
  note seq_files = finish_lists [where arr = "\<lambda>k. ids_of k (futures data)" and dl = dl
      and s = ?s and number = "total_len data" and verbose = verbose,
      OF dist kv x seq_arr seq_dicts [OF dist]]
  obtain order where o: "mset order = mset (futures data)"
    and r: "run_pool dl sched (futures data) (init_state data)
            = fold (par_step dl) order (init_state data)"
    using run_pool_fold by blast
  let ?p = "fold (par_step dl) order (init_state data)"
  have par: "parallel_classify_pdb_batch dl sched data verbose = finish (total_len data) verbose ?p"
    by (simp add: parallel_classify_pdb_batch_def r)
  have par_arr: "set (ids_of k order) = set v"
    using arrival_mset [OF dist o kv] by (rule mset_eq_setD)
  note par_files = finish_lists [where arr = "\<lambda>k. ids_of k order" and dl = dl
      and s = ?p and number = "total_len data" and verbose = verbose,
      OF dist kv x par_arr par_dicts [OF dist]]
  show ?thesis
    unfolding seq par
    using pos seq_files par_files by (simp add: result_finish)
qed

theorem download_exception_contained_witness:
  "distinct (map fst example_data) \<and> (''B'', [''y1'']) \<in> set example_data \<and> ''y1'' \<in> set [''y1'']
   \<and> outcome_of example_download ''y1'' = Raises
   \<and> result (classify_pdb_batch example_download example_data True) = Inr None
   \<and> file_lists (saved (classify_pdb_batch example_download example_data True))
        NOT_DOWNLOADABLE_IDs_FILE ''B'' ''y1''
   \<and> \<not> file_lists (saved (classify_pdb_batch example_download example_data True))
        COMPLETE_IDs_FILE ''B'' ''y1''
   \<and> \<not> file_lists (saved (classify_pdb_batch example_download example_data True))
        INCOMPLETE_IDs_FILE ''B'' ''y1''
   \<and> result (parallel_classify_pdb_batch example_download [2, 0, 0] example_data True) = Inr None
   \<and> file_lists (saved (parallel_classify_pdb_batch example_download [2, 0, 0] example_data True))
        NOT_DOWNLOADABLE_IDs_FILE ''B'' ''y1''"
proof -
  have h: "distinct (map fst example_data)" "(''B'', [''y1'']) \<in> set example_data"
    "''y1'' \<in> set [''y1'']"
    by (simp_all add: example_data_def)
  have o: "outcome_of example_download ''y1'' = Raises"
    by (simp add: outcome_of_def example_download_def)
  from download_exception_contained [OF h, of example_download True "[2, 0, 0]"] h o
  show ?thesis by simp
qed

text \<open>
  Claim C6. When a batch run (sequential, or any run of the pool) ends, each of the
  three files holds a dictionary in which no group has an empty sequence: a group whose
  sequence in the dictionary before the pruning is empty is not a key of the file, and
  a group with no identifier in the input is a key of none of the three files.
\<close>

theorem final_files_have_no_empty_group:
  assumes dist: "distinct (map fst data)"
  shows "pruned_file (complete (classify_loop dl data (init_state data)))
           (saved (classify_pdb_batch dl data verbose)) COMPLETE_IDs_FILE
       \<and> pruned_file (incomplete (classify_loop dl data (init_state data)))
           (saved (classify_pdb_batch dl data verbose)) INCOMPLETE_IDs_FILE
       \<and> pruned_file (not_downloadable (classify_loop dl data (init_state data)))
           (saved (classify_pdb_batch dl data verbose)) NOT_DOWNLOADABLE_IDs_FILE
       \<and> pruned_file (complete (run_pool dl sched (futures data) (init_state data)))
           (saved (parallel_classify_pdb_batch dl sched data verbose)) COMPLETE_IDs_FILE
       \<and> pruned_file (incomplete (run_pool dl sched (futures data) (init_state data)))
           (saved (parallel_classify_pdb_batch dl sched data verbose)) INCOMPLETE_IDs_FILE
       \<and> pruned_file (not_downloadable (run_pool dl sched (futures data) (init_state data)))
           (saved (parallel_classify_pdb_batch dl sched data verbose)) NOT_DOWNLOADABLE_IDs_FILE
       \<and> ((k, []) \<in> set data \<longrightarrow>
            group_absent (saved (classify_pdb_batch dl data verbose)) COMPLETE_IDs_FILE k
          \<and> group_absent (saved (classify_pdb_batch dl data verbose)) INCOMPLETE_IDs_FILE k
          \<and> group_absent (saved (classify_pdb_batch dl data verbose)) NOT_DOWNLOADABLE_IDs_FILE k
          \<and> group_absent (saved (parallel_classify_pdb_batch dl sched data verbose)) COMPLETE_IDs_FILE k
          \<and> group_absent (saved (parallel_classify_pdb_batch dl sched data verbose)) INCOMPLETE_IDs_FILE k
          \<and> group_absent (saved (parallel_classify_pdb_batch dl sched data verbose))
               NOT_DOWNLOADABLE_IDs_FILE k)"
proof -
  let ?s = "fold (seq_step dl) (futures data) (init_state data)"
  have seq: "classify_loop dl data (init_state data) = ?s"
    by (rule classify_loop_fold)
  have seq_arr: "set (ids_of k (futures data)) = set v" if "(k, v) \<in> set data" for k v
    by (simp add: ids_of_futures [OF dist that])
  note sf = finish_pruned [where arr = "\<lambda>k. ids_of k (futures data)" and dl = dl and s = ?s
      and number = "total_len data" and verbose = verbose,
      OF dist seq_arr seq_dicts [OF dist]]
  obtain order where o: "mset order = mset (futures data)"
    and r: "run_pool dl sched (futures data) (init_state data)
            = fold (par_step dl) order (init_state data)"
    using run_pool_fold by blast
  let ?p = "fold (par_step dl) order (init_state data)"
  have par_arr: "set (ids_of k order) = set v" if "(k, v) \<in> set data" for k v
    using arrival_mset [OF dist o that] by (rule mset_eq_setD)
  note pf = finish_pruned [where arr = "\<lambda>k. ids_of k order" and dl = dl and s = ?p
      and number = "total_len data" and verbose = verbose,
      OF dist par_arr par_dicts [OF dist]]
  show ?thesis
    unfolding classify_pdb_batch_def parallel_classify_pdb_batch_def Let_def seq r
    using sf pf by blast
qed

theorem final_files_have_no_empty_group_witness:
  "distinct (map fst pruning_data) \<and> (''C'', []) \<in> set pruning_data
   \<and> pruned_file (complete (classify_loop example_download pruning_data (init_state pruning_data)))
        (saved (classify_pdb_batch example_download pruning_data False)) COMPLETE_IDs_FILE
   \<and> pruned_file (complete (run_pool example_download [1] (futures pruning_data) (init_state pruning_data)))
        (saved (parallel_classify_pdb_batch example_download [1] pruning_data False)) COMPLETE_IDs_FILE
   \<and> group_absent (saved (classify_pdb_batch example_download pruning_data False)) COMPLETE_IDs_FILE ''C''
   \<and> group_absent (saved (classify_pdb_batch example_download pruning_data False)) INCOMPLETE_IDs_FILE ''C''
   \<and> group_absent (saved (classify_pdb_batch example_download pruning_data False))
        NOT_DOWNLOADABLE_IDs_FILE ''C''
   \<and> group_absent (saved (parallel_classify_pdb_batch example_download [1] pruning_data False))
        COMPLETE_IDs_FILE ''C''
   \<and> read_pkl COMPLETE_IDs_FILE (saved (parallel_classify_pdb_batch example_download [1] pruning_data False))
       = Some [(''A'', [''x1''])]"
proof -
  have h: "distinct (map fst pruning_data)" "(''C'', []) \<in> set pruning_data"
    by (simp_all add: pruning_data_def)
  have e: "read_pkl COMPLETE_IDs_FILE
             (saved (parallel_classify_pdb_batch example_download [1] pruning_data False))
           = Some [(''A'', [''x1''])]"
    by (simp add: parallel_classify_pdb_batch_def saved_finish read_save_all pruning_data_def
                  futures_def init_state_def empty_lists_def next_task_def remove_nth_def
                  process_pdb_def example_download_def drop_empty_def)
  from final_files_have_no_empty_group [OF h(1), of example_download False "[1]" "''C''"] h e
  show ?thesis by simp
qed

text \<open>
  Claim C9. The reporter raises \<open>ZeroDivisionError\<close> exactly when the total it is given
  is zero, and returns exactly when it is not. The total of an input is zero exactly
  when every group of the input is empty (an empty dictionary included); then a batch
  run with \<open>verbose\<close> ends with that exception and prints no summary, in both modes,
  while without \<open>verbose\<close> it returns.
\<close>

theorem report_divides_by_zero_on_empty_input:
  assumes "total_len data = 0"
  shows "(verbose_analysis c i n number = Inl ZeroDivisionError \<longleftrightarrow> number = 0)
       \<and> ((\<exists>rep. verbose_analysis c i n number = Inr rep) \<longleftrightarrow> number \<noteq> 0)
       \<and> (total_len data = 0 \<longleftrightarrow> (\<forall>(k, v) \<in> set data. v = []))
       \<and> result (classify_pdb_batch dl data True) = Inl ZeroDivisionError
       \<and> summary (classify_pdb_batch dl data True) = None
       \<and> result (parallel_classify_pdb_batch dl sched data True) = Inl ZeroDivisionError
       \<and> summary (parallel_classify_pdb_batch dl sched data True) = None
       \<and> result (classify_pdb_batch dl data False) = Inr None
       \<and> result (parallel_classify_pdb_batch dl sched data False) = Inr None"
  using assms total_len_zero [of data]
  by (simp add: verbose_analysis_raises verbose_analysis_returns classify_pdb_batch_def
                parallel_classify_pdb_batch_def result_finish summary_finish
                verbose_analysis_zero)

theorem report_divides_by_zero_on_empty_input_witness:
  "total_len empty_group_data = 0
   \<and> result (classify_pdb_batch example_download empty_group_data True) = Inl ZeroDivisionError
   \<and> summary (classify_pdb_batch example_download empty_group_data True) = None
   \<and> result (parallel_classify_pdb_batch example_download [] empty_group_data True)
       = Inl ZeroDivisionError
   \<and> result (classify_pdb_batch example_download empty_group_data False) = Inr None
   \<and> verbose_analysis [] [] [] 0 = Inl ZeroDivisionError"
proof -
  have h: "total_len empty_group_data = 0"
    by (simp add: total_len_def empty_group_data_def)
  from report_divides_by_zero_on_empty_input [OF h, of "[]" "[]" "[]" 0 example_download "[]"] h
  show ?thesis by simp
qed

text \<open>
  Claim C4, as the code has it. Both batch functions return \<open>None\<close> (or end with the
  reporter's \<open>ZeroDivisionError\<close> when \<open>verbose\<close> is set and the input has no
  identifier); they return no dictionaries and no count. The three pruned dictionaries
  are what the final checkpoint writes, after the writes of the loop, and with
  \<open>verbose\<close> they are what the reporter receives, together with the sum of the input
  group sizes, which is computed from the input alone.
\<close>

theorem batch_run_returns_none:
  "result (classify_pdb_batch dl data verbose)
     = (if verbose \<and> total_len data = 0 then Inl ZeroDivisionError else Inr None)
   \<and> saved (classify_pdb_batch dl data verbose)
     = written (classify_loop dl data (init_state data))
       @ [(COMPLETE_IDs_FILE, drop_empty (complete (classify_loop dl data (init_state data)))),
          (INCOMPLETE_IDs_FILE, drop_empty (incomplete (classify_loop dl data (init_state data)))),
          (NOT_DOWNLOADABLE_IDs_FILE,
             drop_empty (not_downloadable (classify_loop dl data (init_state data))))]
   \<and> summary (classify_pdb_batch dl data verbose)
     = (if verbose
        then (case verbose_analysis
                     (drop_empty (complete (classify_loop dl data (init_state data))))
                     (drop_empty (incomplete (classify_loop dl data (init_state data))))
                     (drop_empty (not_downloadable (classify_loop dl data (init_state data))))
                     (total_len data) of
                Inl e \<Rightarrow> None | Inr rep \<Rightarrow> Some rep)
        else None)
   \<and> result (parallel_classify_pdb_batch dl sched data verbose)
     = (if verbose \<and> total_len data = 0 then Inl ZeroDivisionError else Inr None)
   \<and> saved (parallel_classify_pdb_batch dl sched data verbose)
     = [(COMPLETE_IDs_FILE, drop_empty (complete (run_pool dl sched (futures data) (init_state data)))),
        (INCOMPLETE_IDs_FILE, drop_empty (incomplete (run_pool dl sched (futures data) (init_state data)))),
        (NOT_DOWNLOADABLE_IDs_FILE,
           drop_empty (not_downloadable (run_pool dl sched (futures data) (init_state data))))]
   \<and> summary (parallel_classify_pdb_batch dl sched data verbose)
     = (if verbose
        then (case verbose_analysis
                     (drop_empty (complete (run_pool dl sched (futures data) (init_state data))))
                     (drop_empty (incomplete (run_pool dl sched (futures data) (init_state data))))
                     (drop_empty (not_downloadable (run_pool dl sched (futures data) (init_state data))))
                     (total_len data) of
                Inl e \<Rightarrow> None | Inr rep \<Rightarrow> Some rep)
        else None)"
proof -
  obtain order where r: "run_pool dl sched (futures data) (init_state data)
            = fold (par_step dl) order (init_state data)"
    using run_pool_fold by blast
  have w: "written (run_pool dl sched (futures data) (init_state data)) = []"
    unfolding r by (simp add: par_fold_written init_state_def)
  show ?thesis
    by (simp add: classify_pdb_batch_def parallel_classify_pdb_batch_def result_finish
                  saved_finish summary_finish save_all_def save_pkl_def w)
qed

theorem batch_run_returns_none_witness:
  "result (classify_pdb_batch example_download example_data True) = Inr None
   \<and> saved (classify_pdb_batch example_download example_data True)
       = [(COMPLETE_IDs_FILE, [(''A'', [''x1''])]), (INCOMPLETE_IDs_FILE, [(''A'', [''x2''])]),
          (NOT_DOWNLOADABLE_IDs_FILE, [(''B'', [''y1''])])]
   \<and> map_option number_of_pdb_ids (summary (classify_pdb_batch example_download example_data True))
       = Some 3
   \<and> map_option total_complete (summary (classify_pdb_batch example_download example_data True))
       = Some 1"
proof -
  have s: "classify_loop example_download example_data (init_state example_data)
           = \<lparr>complete = [(''A'', [''x1'']), (''B'', [])], incomplete = [(''A'', [''x2'']), (''B'', [])],
              not_downloadable = [(''A'', []), (''B'', [''y1''])], count' = 3, written = []\<rparr>"
    by (simp add: classify_loop_def loop_body_def save_progress_def example_data_def
                  init_state_def empty_lists_def example_download_def)
  have t: "total_len example_data = 3"
    by (simp add: total_len_def example_data_def)
  have u: "total_len [(''A'', [''x1''])] = 1"
    by (simp add: total_len_def)
  from batch_run_returns_none [of example_download example_data True "[]"]
  show ?thesis
    by (simp add: s t u drop_empty_def verbose_analysis_def Let_def)
qed

text \<open>
  Claim C4 as stated fails: on the scenario input both functions return \<open>None\<close>, not
  the tuple of the three pruned dictionaries and the count 3.
\<close>

theorem batch_run_returns_tuple_counterexample:
  "result (classify_pdb_batch example_download example_data False) = Inr None
   \<and> result (classify_pdb_batch example_download example_data False)
       \<noteq> Inr (Some ([(''A'', [''x1''])], [(''A'', [''x2''])], [(''B'', [''y1''])], 3))
   \<and> result (parallel_classify_pdb_batch example_download [] example_data False) = Inr None
   \<and> result (parallel_classify_pdb_batch example_download [] example_data False)
       \<noteq> Inr (Some ([(''A'', [''x1''])], [(''A'', [''x2''])], [(''B'', [''y1''])], 3))"
  by (simp add: classify_pdb_batch_def parallel_classify_pdb_batch_def result_finish)

text \<open>
  Claim C8, as the code has it. With 25 identifiers in the input, if the downloads of
  the 10th and of the 20th identifier do not raise, the sequential run writes exactly
  two checkpoints before the final one: the first holds the three dictionaries as they
  are after the 10th identifier, the second as they are after the 20th; the final
  checkpoint, the third in all, holds the pruned dictionaries after the 25th.
\<close>

theorem two_checkpoints_then_final_for_25:
  assumes "total_len data = 25"
    and "outcome_of dl (all_ids data ! 9) \<noteq> Raises"
    and "outcome_of dl (all_ids data ! 19) \<noteq> Raises"
  shows "checkpoints_before_final dl data = 2
       \<and> saved (classify_pdb_batch dl data verbose)
           = snapshot (prefix_state dl data 10) @ snapshot (prefix_state dl data 20)
             @ [(COMPLETE_IDs_FILE, drop_empty (complete (prefix_state dl data 25))),
                (INCOMPLETE_IDs_FILE, drop_empty (incomplete (prefix_state dl data 25))),
                (NOT_DOWNLOADABLE_IDs_FILE, drop_empty (not_downloadable (prefix_state dl data 25)))]"
proof -
  note ck = checkpoints_25 [OF assms]
  have "checkpoints_before_final dl data = 2"
    by (simp add: checkpoints_before_final_def ck(1) count_snapshot)
  moreover have "saved (classify_pdb_batch dl data verbose)
           = snapshot (prefix_state dl data 10) @ snapshot (prefix_state dl data 20)
             @ [(COMPLETE_IDs_FILE, drop_empty (complete (prefix_state dl data 25))),
                (INCOMPLETE_IDs_FILE, drop_empty (incomplete (prefix_state dl data 25))),
                (NOT_DOWNLOADABLE_IDs_FILE, drop_empty (not_downloadable (prefix_state dl data 25)))]"
    using ck(1) by (simp add: classify_pdb_batch_def saved_finish save_all_def save_pkl_def ck(2))
  ultimately show ?thesis by simp
qed

theorem two_checkpoints_then_final_for_25_witness:
  "total_len data25 = 25
   \<and> outcome_of some_fail (all_ids data25 ! 9) = Falsy
   \<and> outcome_of some_fail (all_ids data25 ! 19) = Truthy
   \<and> checkpoints_before_final some_fail data25 = 2
   \<and> saved (classify_pdb_batch some_fail data25 False)
       = snapshot (prefix_state some_fail data25 10) @ snapshot (prefix_state some_fail data25 20)
         @ [(COMPLETE_IDs_FILE, drop_empty (complete (prefix_state some_fail data25 25))),
            (INCOMPLETE_IDs_FILE, drop_empty (incomplete (prefix_state some_fail data25 25))),
            (NOT_DOWNLOADABLE_IDs_FILE, drop_empty (not_downloadable (prefix_state some_fail data25 25)))]"
proof -
  have o: "outcome_of some_fail (all_ids data25 ! 9) = Falsy"
    "outcome_of some_fail (all_ids data25 ! 19) = Truthy"
    by (simp_all add: all_ids_data25 outcome_of_def some_fail_def)
  have h: "outcome_of some_fail (all_ids data25 ! 9) \<noteq> Raises"
    "outcome_of some_fail (all_ids data25 ! 19) \<noteq> Raises"
    by (simp_all add: o)
  from two_checkpoints_then_final_for_25 [OF total_len_data25 h, of False] total_len_data25 o
  show ?thesis by simp
qed

text \<open>
  Claim C8 as stated fails: with 25 identifiers that all download completely, two
  checkpoints, not three, are written before the final one (nine \<open>save_pkl\<close> calls in
  all, three per checkpoint).
\<close>

theorem three_checkpoints_before_final_counterexample:
  "total_len data25 = 25
   \<and> checkpoints_before_final all_complete data25 = 2
   \<and> checkpoints_before_final all_complete data25 \<noteq> 3
   \<and> length (saved (classify_pdb_batch all_complete data25 False)) = 9"
proof -
  have h: "outcome_of all_complete (all_ids data25 ! 9) \<noteq> Raises"
    "outcome_of all_complete (all_ids data25 ! 19) \<noteq> Raises"
    by (simp_all add: outcome_of_def all_complete_def)
  note ck = checkpoints_25 [OF total_len_data25 h]
  have "checkpoints_before_final all_complete data25 = 2"
    by (simp add: checkpoints_before_final_def ck(1) count_snapshot)
  moreover have "length (saved (classify_pdb_batch all_complete data25 False)) = 9"
    by (simp add: classify_pdb_batch_def saved_finish save_all_def save_pkl_def ck(1) snapshot_def)
  ultimately show ?thesis
    using total_len_data25 by simp
qed

text \<open>
  Claim C3 at a failing input. Ten identifiers, the download of the tenth raises: the
  counter reaches 10, and no checkpoint is written by the loops, because the \<open>except\<close>
  branch leaves the iteration with \<open>continue\<close> before the test of the counter. The only
  writes are those of the final checkpoint. When the tenth download succeeds instead,
  the checkpoint is written.
\<close>

theorem checkpoint_skipped_when_tenth_download_raises:
  "count' (classify_loop tenth_fails ten_ids (init_state ten_ids)) = 10
   \<and> written (classify_loop tenth_fails ten_ids (init_state ten_ids)) = []
   \<and> checkpoints_before_final tenth_fails ten_ids = 0
   \<and> saved (classify_pdb_batch tenth_fails ten_ids False)
       = [(COMPLETE_IDs_FILE,
             [(''A'', [''p1'', ''p2'', ''p3'', ''p4'', ''p5'', ''p6'', ''p7'', ''p8'', ''p9''])]),
          (INCOMPLETE_IDs_FILE, []),
          (NOT_DOWNLOADABLE_IDs_FILE, [(''A'', [''p10''])])]
   \<and> checkpoints_before_final all_complete ten_ids = 1"
proof -
  have s: "classify_loop tenth_fails ten_ids (init_state ten_ids)
           = \<lparr>complete = [(''A'', [''p1'', ''p2'', ''p3'', ''p4'', ''p5'', ''p6'', ''p7'', ''p8'', ''p9''])],
              incomplete = [(''A'', [])], not_downloadable = [(''A'', [''p10''])],
              count' = 10, written = []\<rparr>"
    by (simp add: classify_loop_def loop_body_def save_progress_def ten_ids_def init_state_def
                  empty_lists_def tenth_fails_def)
  have t: "written (classify_loop all_complete ten_ids (init_state ten_ids))
           = [(COMPLETE_IDs_FILE,
                 [(''A'', [''p1'', ''p2'', ''p3'', ''p4'', ''p5'', ''p6'', ''p7'', ''p8'', ''p9'', ''p10''])]),
              (INCOMPLETE_IDs_FILE, [(''A'', [])]), (NOT_DOWNLOADABLE_IDs_FILE, [(''A'', [])])]"
    by (simp add: classify_loop_def loop_body_def save_progress_def ten_ids_def init_state_def
                  empty_lists_def all_complete_def save_all_def save_pkl_def)
  show ?thesis
    by (simp add: s t checkpoints_before_final_def classify_pdb_batch_def saved_finish
                  save_all_def save_pkl_def drop_empty_def files_distinct)
qed

text \<open>
  Claim C7, as the code has it. Given a total that is not zero, the reporter returns a
  summary whose three counts are the sums of the sequence lengths of its three
  dictionaries and whose percentages are \<open>count / total * 100\<close> in floating point,
  against the total it was given. Without rounding, the three percentages sum to at
  most 100 exactly when the counts sum to at most the total, and to 100 exactly when
  the counts sum to the total. A batch run hands the reporter the total computed from
  the input before processing, and dictionaries whose counts are those before the
  pruning; these counts sum to that total, in the sequential run and in every run of
  the pool.
\<close>

theorem reporter_counts_against_input_total:
  assumes dist: "distinct (map fst data)" and pos: "number \<noteq> 0"
  shows "(\<exists>rep. verbose_analysis c i n number = Inr rep
            \<and> number_of_pdb_ids rep = number
            \<and> total_complete rep = total_len c
            \<and> total_incomplete rep = total_len i
            \<and> total_not_downloadable rep = total_len n
            \<and> complete_percentage rep = float_mul (int_truediv (total_len c) number) 100
            \<and> incomplete_percentage rep = float_mul (int_truediv (total_len i) number) 100
            \<and> not_downloadable_percentage rep = float_mul (int_truediv (total_len n) number) 100)
       \<and> (exact_percentage (total_len c) number + exact_percentage (total_len i) number
            + exact_percentage (total_len n) number \<le> 100
          \<longleftrightarrow> total_len c + total_len i + total_len n \<le> number)
       \<and> (exact_percentage (total_len c) number + exact_percentage (total_len i) number
            + exact_percentage (total_len n) number = 100
          \<longleftrightarrow> total_len c + total_len i + total_len n = number)
       \<and> summary (classify_pdb_batch dl data True)
           = (case verbose_analysis (complete (classify_loop dl data (init_state data)))
                     (incomplete (classify_loop dl data (init_state data)))
                     (not_downloadable (classify_loop dl data (init_state data)))
                     (total_len data) of
                Inl e \<Rightarrow> None | Inr rep \<Rightarrow> Some rep)
       \<and> total_len (complete (classify_loop dl data (init_state data)))
           + total_len (incomplete (classify_loop dl data (init_state data)))
           + total_len (not_downloadable (classify_loop dl data (init_state data)))
           = total_len data
       \<and> summary (parallel_classify_pdb_batch dl sched data True)
           = (case verbose_analysis (complete (run_pool dl sched (futures data) (init_state data)))
                     (incomplete (run_pool dl sched (futures data) (init_state data)))
                     (not_downloadable (run_pool dl sched (futures data) (init_state data)))
                     (total_len data) of
                Inl e \<Rightarrow> None | Inr rep \<Rightarrow> Some rep)
       \<and> total_len (complete (run_pool dl sched (futures data) (init_state data)))
           + total_len (incomplete (run_pool dl sched (futures data) (init_state data)))
           + total_len (not_downloadable (run_pool dl sched (futures data) (init_state data)))
           = total_len data"
proof -
  have rep: "\<exists>rep. verbose_analysis c i n number = Inr rep
            \<and> number_of_pdb_ids rep = number
            \<and> total_complete rep = total_len c
            \<and> total_incomplete rep = total_len i
            \<and> total_not_downloadable rep = total_len n
            \<and> complete_percentage rep = float_mul (int_truediv (total_len c) number) 100
            \<and> incomplete_percentage rep = float_mul (int_truediv (total_len i) number) 100
            \<and> not_downloadable_percentage rep = float_mul (int_truediv (total_len n) number) 100"
    using pos by (simp add: verbose_analysis_def Let_def)
  have seq_sum: "summary (classify_pdb_batch dl data True)
           = (case verbose_analysis (complete (classify_loop dl data (init_state data)))
                     (incomplete (classify_loop dl data (init_state data)))
                     (not_downloadable (classify_loop dl data (init_state data)))
                     (total_len data) of
                Inl e \<Rightarrow> None | Inr rep \<Rightarrow> Some rep)"
    by (simp add: classify_pdb_batch_def summary_finish verbose_analysis_drop_empty)
  have par_sum: "summary (parallel_classify_pdb_batch dl sched data True)
           = (case verbose_analysis (complete (run_pool dl sched (futures data) (init_state data)))
                     (incomplete (run_pool dl sched (futures data) (init_state data)))
                     (not_downloadable (run_pool dl sched (futures data) (init_state data)))
                     (total_len data) of
                Inl e \<Rightarrow> None | Inr rep \<Rightarrow> Some rep)"
    by (simp add: parallel_classify_pdb_batch_def summary_finish verbose_analysis_drop_empty)
  have seq_arr: "\<forall>(k, v) \<in> set data. length (ids_of k (futures data)) = length v"
    using ids_of_futures [OF dist] by auto
  have seq_total: "total_len (complete (classify_loop dl data (init_state data)))
           + total_len (incomplete (classify_loop dl data (init_state data)))
           + total_len (not_downloadable (classify_loop dl data (init_state data)))
           = total_len data"
    unfolding classify_loop_fold seq_dicts [OF dist] by (rule counts_total [OF seq_arr])
  obtain order where o: "mset order = mset (futures data)"
    and r: "run_pool dl sched (futures data) (init_state data)
            = fold (par_step dl) order (init_state data)"
    using run_pool_fold by blast
  have par_arr: "\<forall>(k, v) \<in> set data. length (ids_of k order) = length v"
    using arrival_mset [OF dist o] by (auto dest: length_of_mset)
  have par_total: "total_len (complete (run_pool dl sched (futures data) (init_state data)))
           + total_len (incomplete (run_pool dl sched (futures data) (init_state data)))
           + total_len (not_downloadable (run_pool dl sched (futures data) (init_state data)))
           = total_len data"
    unfolding r par_dicts [OF dist] by (rule counts_total [OF par_arr])
  show ?thesis
    using rep exact_sum [OF pos, of "total_len c" "total_len i" "total_len n"]
      seq_sum seq_total par_sum par_total
    by blast
qed

theorem reporter_counts_against_input_total_witness:
  "distinct (map fst example_data) \<and> (3::nat) \<noteq> 0
   \<and> exact_percentage (total_len [(''A'', [''x1''])]) 3
       + exact_percentage (total_len [(''A'', [''x2''])]) 3
       + exact_percentage (total_len [(''B'', [''y1''])]) 3 = 100
   \<and> total_len (complete (classify_loop example_download example_data (init_state example_data)))
       + total_len (incomplete (classify_loop example_download example_data (init_state example_data)))
       + total_len (not_downloadable (classify_loop example_download example_data (init_state example_data)))
       = total_len example_data
   \<and> total_len example_data = 3"
proof -
  have h: "distinct (map fst example_data)" "(3::nat) \<noteq> 0"
    by (simp_all add: example_data_def)
  note T = reporter_counts_against_input_total [OF h, of "[(''A'', [''x1''])]"
      "[(''A'', [''x2''])]" "[(''B'', [''y1''])]" example_download "[]"]
  have e: "exact_percentage (total_len [(''A'', [''x1''])]) 3
       + exact_percentage (total_len [(''A'', [''x2''])]) 3
       + exact_percentage (total_len [(''B'', [''y1''])]) 3 = 100"
    using T by (simp add: total_len_def)
  have t: "total_len example_data = 3"
    by (simp add: total_len_def example_data_def)
  show ?thesis
    using T h e t by blast
qed

text \<open>
  Claim C7 as stated fails for the percentages the reporter computes, which are rounded
  twice (by the division and by the multiplication). With six identifiers of which one
  is complete and five cannot be downloaded, the percentages are 16.666666666666664
  and 83.33333333333334, and their sum exceeds 100 by \<open>1 / 2 ^ 47\<close>. In the scenario
  of the specification every one of the three identifiers is classified, and the three
  percentages 33.33333333333333 sum to less than 100.
\<close>

theorem percentages_sum_counterexample:
  "map_option percentage_sum (summary (classify_pdb_batch first_only six_ids True))
     = Some (14073748835532801 / 140737488355328)
   \<and> (100::rat) < 14073748835532801 / 140737488355328
   \<and> map_option percentage_sum (summary (classify_pdb_batch example_download example_data True))
     = Some (7036874417766399 / 70368744177664)
   \<and> 7036874417766399 / 70368744177664 < (100::rat)
   \<and> map_option total_complete (summary (classify_pdb_batch example_download example_data True))
     = Some 1
   \<and> map_option total_incomplete (summary (classify_pdb_batch example_download example_data True))
     = Some 1
   \<and> map_option total_not_downloadable (summary (classify_pdb_batch example_download example_data True))
     = Some 1
   \<and> map_option number_of_pdb_ids (summary (classify_pdb_batch example_download example_data True))
     = Some 3"
proof -
  have s6: "classify_loop first_only six_ids (init_state six_ids)
           = \<lparr>complete = [(''A'', [''q1''])], incomplete = [(''A'', [])],
              not_downloadable = [(''A'', [''q2'', ''q3'', ''q4'', ''q5'', ''q6''])],
              count' = 6, written = []\<rparr>"
    by (simp add: classify_loop_def loop_body_def save_progress_def six_ids_def
                  init_state_def empty_lists_def first_only_def)
  have s3: "classify_loop example_download example_data (init_state example_data)
           = \<lparr>complete = [(''A'', [''x1'']), (''B'', [])], incomplete = [(''A'', [''x2'']), (''B'', [])],
              not_downloadable = [(''A'', []), (''B'', [''y1''])], count' = 3, written = []\<rparr>"
    by (simp add: classify_loop_def loop_body_def save_progress_def example_data_def
                  init_state_def empty_lists_def example_download_def)
  have t: "total_len six_ids = 6" "total_len example_data = 3"
    "total_len [(''A'', [''q1''])] = 1" "total_len [] = 0"
    "total_len [(''A'', [''q2'', ''q3'', ''q4'', ''q5'', ''q6''])] = 5"
    "total_len [(''A'', [''x1''])] = 1" "total_len [(''A'', [''x2''])] = 1"
    "total_len [(''B'', [''y1''])] = 1"
    by (simp_all add: total_len_def six_ids_def example_data_def)
  have r6: "summary (classify_pdb_batch first_only six_ids True)
            = Some \<lparr>number_of_pdb_ids = 6, total_complete = 1, total_incomplete = 0,
                    total_not_downloadable = 5,
                    complete_percentage = 2345624805922133 / 140737488355328,
                    incomplete_percentage = 0,
                    not_downloadable_percentage = 2932031007402667 / 35184372088832\<rparr>"
    by (simp add: classify_pdb_batch_def summary_finish s6 drop_empty_def t
                  verbose_analysis_def double_percentages del: One_nat_def)
  have r3: "summary (classify_pdb_batch example_download example_data True)
            = Some \<lparr>number_of_pdb_ids = 3, total_complete = 1, total_incomplete = 1,
                    total_not_downloadable = 1,
                    complete_percentage = 2345624805922133 / 70368744177664,
                    incomplete_percentage = 2345624805922133 / 70368744177664,
                    not_downloadable_percentage = 2345624805922133 / 70368744177664\<rparr>"
    by (simp add: classify_pdb_batch_def summary_finish s3 drop_empty_def t
                  verbose_analysis_def double_percentages del: One_nat_def)
  show ?thesis
    by (simp add: r6 r3 percentage_sum_def)
qed

text \<open>
  Claim C10. On the heap, for an input dictionary with distinct keys whose references
  denote allocated lists, the sequential run ends (its loops end), and it and every run
  of the pool leave every object that existed before the run in place and with its
  content; in particular the input dictionary denotes the same lists, in the same
  order, after the run. Both runs produce the outcome of the functions above on the
  dictionary of lists that the input denotes.
\<close>

theorem input_collection_not_mutated:
  assumes dist: "distinct (map fst data)" and allocated: "list_all (\<lambda>(k, r). r < length h) data"
  shows "(\<exists>h'. h_classify_pdb_batch dl data verbose h
                 = Some (classify_pdb_batch dl (deref h data) verbose, h')
              \<and> untouched h h' \<and> deref h' data = deref h data)
       \<and> (\<exists>h'. h_parallel_classify_pdb_batch dl sched data verbose h
                 = (parallel_classify_pdb_batch dl sched (deref h data) verbose, h')
              \<and> untouched h h' \<and> deref h' data = deref h data)"
proof -
  have alloc: "\<forall>(k, r) \<in> set data. r < length h"
    using allocated by (simp add: list_all_iff)
  let ?s0 = "h_init data h"
  have f0: "frame h ?s0"
    using init_fresh [OF dist] init_untouched by (simp add: frame_def)
  obtain s' where s': "h_outer_loop dl data ?s0 = Some s'" "frame h s'"
    "view s' = classify_loop dl (deref h data) (view ?s0)"
    using outer_loop_runs [OF f0 alloc] by blast
  have u: "untouched h (heap s')" using s'(2) by (simp add: frame_def)
  have "h_classify_pdb_batch dl data verbose h
        = Some (classify_pdb_batch dl (deref h data) verbose, heap s')"
    by (simp add: h_classify_pdb_batch_def s'(1) h_finish_view s'(3) view_init
                  classify_pdb_batch_def)
  then have seq: "\<exists>h'. h_classify_pdb_batch dl data verbose h
                 = Some (classify_pdb_batch dl (deref h data) verbose, h')
              \<and> untouched h h' \<and> deref h' data = deref h data"
    using u deref_untouched [OF u alloc] by blast
  have d0: "deref (heap ?s0) data = deref h data"
    by (rule deref_untouched [OF init_untouched alloc])
  let ?p = "h_run_pool dl sched (futures (deref h data)) ?s0"
  have p: "frame h ?p" "view ?p = run_pool dl sched (futures (deref h data)) (view ?s0)"
    using pool_runs [OF f0] by simp_all
  have up: "untouched h (heap ?p)" using p(1) by (simp add: frame_def)
  have "h_parallel_classify_pdb_batch dl sched data verbose h
        = (parallel_classify_pdb_batch dl sched (deref h data) verbose, heap ?p)"
    by (simp add: h_parallel_classify_pdb_batch_def Let_def d0 h_finish_view p(2) view_init
                  parallel_classify_pdb_batch_def)
  then have par: "\<exists>h'. h_parallel_classify_pdb_batch dl sched data verbose h
                 = (parallel_classify_pdb_batch dl sched (deref h data) verbose, h')
              \<and> untouched h h' \<and> deref h' data = deref h data"
    using up deref_untouched [OF up alloc] by blast
  show ?thesis
    using seq par by blast
qed

theorem input_collection_not_mutated_witness:
  "distinct (map fst example_refs)
   \<and> list_all (\<lambda>(k, r). r < length example_heap) example_refs
   \<and> deref example_heap example_refs = example_data
   \<and> h_classify_pdb_batch example_download example_refs False example_heap
       = Some (classify_pdb_batch example_download example_data False,
               [[''x1'', ''x2''], [''y1''], [''x1''], [], [''x2''], [], [], [''y1'']])
   \<and> untouched example_heap [[''x1'', ''x2''], [''y1''], [''x1''], [], [''x2''], [], [], [''y1'']]
   \<and> deref [[''x1'', ''x2''], [''y1''], [''x1''], [], [''x2''], [], [], [''y1'']] example_refs
       = example_data
   \<and> (\<exists>h'. h_parallel_classify_pdb_batch example_download [2, 0, 0] example_refs False example_heap
               = (parallel_classify_pdb_batch example_download [2, 0, 0] example_data False, h')
            \<and> untouched example_heap h' \<and> deref h' example_refs = example_data)"
proof -
  have h: "distinct (map fst example_refs)"
    "list_all (\<lambda>(k, r). r < length example_heap) example_refs"
    by (simp_all add: example_refs_def example_heap_def)
  have d: "deref example_heap example_refs = example_data"
    by (simp add: deref_def example_refs_def example_heap_def example_data_def)
  note T = input_collection_not_mutated [OF h, of example_download False "[2, 0, 0]"]
  from T obtain h' where h': "h_classify_pdb_batch example_download example_refs False example_heap
        = Some (classify_pdb_batch example_download (deref example_heap example_refs) False, h')"
      "untouched example_heap h'" "deref h' example_refs = deref example_heap example_refs"
    by blast
  have "h' = [[''x1'', ''x2''], [''y1''], [''x1''], [], [''x2''], [], [], [''y1'']]"
    using h'(1) by (simp add: example_run)
  then show ?thesis
    using T h h' d by simp
qed

end
